theory Spec2Isabelle
  imports Main "HOL-Library.Multiset" "HOL-Library.Sublist"
begin

section \<open>Python values used by the stimulus loader\<close>

text \<open>
  The exceptions the modelled code can raise. \<open>PyException\<close> is the plain
  \<^verbatim>\<open>Exception(message)\<close> of \<^verbatim>\<open>check_config_paths\<close>.
\<close>

datatype error =
    IndexError
  | IsADirectoryError
  | FileNotFoundError
  | FileExistsError
  | NotADirectoryError
  | PyException string

text \<open>Sequencing of a computation that may raise: the first exception wins.\<close>

definition bind :: "error + 'a \<Rightarrow> ('a \<Rightarrow> error + 'b) \<Rightarrow> error + 'b" where
  "bind m f = (case m of Inl e \<Rightarrow> Inl e | Inr v \<Rightarrow> f v)"

text \<open>\<^verbatim>\<open>xs[i]\<close> for a literal index \<open>i \<ge> 0\<close>, and \<^verbatim>\<open>xs[-1]\<close>.\<close>

definition index :: "'a list \<Rightarrow> nat \<Rightarrow> error + 'a" where
  "index xs i = (if i < length xs then Inr (xs ! i) else Inl IndexError)"

definition index_last :: "'a list \<Rightarrow> error + 'a" where
  "index_last xs = (if xs = [] then Inl IndexError else Inr (last xs))"

text \<open>\<^verbatim>\<open>s.split(c)\<close> for a one-character separator: always at least one part.\<close>

fun split_char :: "char \<Rightarrow> string \<Rightarrow> string list" where
  "split_char c [] = [[]]"
| "split_char c (x # xs) =
     (if x = c then [] # split_char c xs
      else (case split_char c xs of
              [] \<Rightarrow> [[x]]
            | p # ps \<Rightarrow> (x # p) # ps))"

text \<open>\<^verbatim>\<open>sep.join(xs)\<close>.\<close>

fun join :: "string \<Rightarrow> string list \<Rightarrow> string" where
  "join sep [] = []"
| "join sep [x] = x"
| "join sep (x # y # ys) = x @ sep @ join sep (y # ys)"

text \<open>
  \<^verbatim>\<open>s.split(sep)[0]\<close> for a non-empty separator: the text before the first
  occurrence of \<open>sep\<close>, the whole of \<open>s\<close> when there is none.
\<close>

fun split_head :: "string \<Rightarrow> string \<Rightarrow> string" where
  "split_head sep [] = []"
| "split_head sep (x # xs) = (if prefix sep (x # xs) then [] else x # split_head sep xs)"

text \<open>\<^verbatim>\<open>pat in s\<close> on strings: \<open>pat\<close> occurs as a contiguous substring.\<close>

fun substring_in :: "string \<Rightarrow> string \<Rightarrow> bool" where
  "substring_in pat [] = (pat = [])"
| "substring_in pat (x # xs) = (prefix pat (x # xs) \<or> substring_in pat xs)"

text \<open>\<^verbatim>\<open>s.endswith(suf)\<close>.\<close>

definition endswith :: "string \<Rightarrow> string \<Rightarrow> bool" where
  "endswith s suf = suffix suf s"

section \<open>Attribute extraction\<close>

text \<open>The dictionary built by \<^verbatim>\<open>extract_filename_info\<close>: always these seven keys.\<close>

record stimulus =
  filename :: string
  exp :: string
  speaker :: string
  trial :: string
  stimulus_origin :: string
  name_stim :: string
  condition :: string

definition extract_filename_info :: "string \<Rightarrow> error + stimulus" where
  "extract_filename_info fname =
     (let parts = split_char CHR ''_'' fname in
      if substring_in ''single'' fname then
        bind (index parts 0) (\<lambda>e.
        bind (index parts 1) (\<lambda>sp.
        bind (index parts 4) (\<lambda>tr.
        bind (index parts 2) (\<lambda>p2.
        bind (index parts 3) (\<lambda>p3.
        bind (index_last parts) (\<lambda>lst.
          Inr \<lparr>filename = fname, exp = e, speaker = sp, trial = tr,
               stimulus_origin = join ''_'' [p2, p3],
               name_stim = split_head ''.wav'' (join ''_'' (drop 5 parts)),
               condition = split_head ''.wav'' lst\<rparr>))))))
      else if substring_in ''gating'' fname then
        bind (index parts 0) (\<lambda>e.
        bind (index parts 1) (\<lambda>sp.
        bind (index parts 3) (\<lambda>tr.
        bind (index parts 0) (\<lambda>p0.
        bind (index parts 2) (\<lambda>p2.
        bind (index_last parts) (\<lambda>lst.
          Inr \<lparr>filename = fname, exp = e, speaker = sp, trial = tr,
               stimulus_origin = join ''_'' [p0, p2],
               name_stim = split_head ''.wav'' (join ''_'' (drop 4 parts)),
               condition = split_head ''.wav'' lst\<rparr>))))))
      else
        bind (index parts 0) (\<lambda>e.
        bind (index parts 1) (\<lambda>sp.
        bind (index parts 6) (\<lambda>tr.
        bind (index_last parts) (\<lambda>lst.
          Inr \<lparr>filename = fname, exp = e, speaker = sp, trial = tr,
               stimulus_origin = join ''_'' (take (6 - 2) (drop 2 parts)),
               name_stim = split_head ''.wav'' (join ''_'' (drop 7 parts)),
               condition = split_head ''.wav'' lst\<rparr>)))))"

section \<open>Constraint randomization\<close>

text \<open>
  \<^verbatim>\<open>random.shuffle(x)\<close> is the library's in-place Fisher-Yates loop
  \<^verbatim>\<open>for i in reversed(range(1, len(x))): j = randbelow(i + 1); x[i], x[j] = x[j], x[i]\<close>.
  The random source is a parameter: \<open>rnd i\<close> is the raw number drawn at loop index
  \<open>i\<close>, reduced into \<open>[0, i]\<close> as \<^verbatim>\<open>randbelow(i + 1)\<close> is. Every sequence of draws
  the library can make is \<open>rnd\<close> for some function.
\<close>

definition swap_at :: "'a list \<Rightarrow> nat \<Rightarrow> nat \<Rightarrow> 'a list" where
  "swap_at xs i j = xs[i := xs ! j, j := xs ! i]"

fun shuffle_from :: "(nat \<Rightarrow> nat) \<Rightarrow> nat \<Rightarrow> 'a list \<Rightarrow> 'a list" where
  "shuffle_from rnd 0 xs = xs"
| "shuffle_from rnd (Suc i) xs =
     shuffle_from rnd i (swap_at xs (Suc i) (rnd (Suc i) mod (Suc i + 1)))"

definition shuffle :: "(nat \<Rightarrow> nat) \<Rightarrow> 'a list \<Rightarrow> 'a list" where
  "shuffle rnd xs = shuffle_from rnd (length xs - 1) xs"

text \<open>
  The condition of the \<^verbatim>\<open>if\<close> inside the scan: the four counts over the output so
  far, each strictly below its cap.
\<close>

definition cap_ok :: "stimulus list \<Rightarrow> stimulus \<Rightarrow> bool" where
  "cap_ok randomized_stimuli s \<longleftrightarrow>
     length (filter (\<lambda>stim. condition stim = condition s) randomized_stimuli) < 4 \<and>
     length (filter (\<lambda>stim. name_stim stim = name_stim s) randomized_stimuli) < 3 \<and>
     length (filter (\<lambda>stim. speaker stim = speaker s) randomized_stimuli) < 3 \<and>
     length (filter (\<lambda>stim. stimulus_origin stim = stimulus_origin s) randomized_stimuli) < 4"

text \<open>
  One pass of the body of \<^verbatim>\<open>while stimuli_copy:\<close>. The \<^verbatim>\<open>for\<close> scan stops at the first
  record that passes the check, appends it and removes its first occurrence from the
  pool (\<^verbatim>\<open>list.remove\<close>); when the scan finds none, the warning is printed, the
  remaining pool is appended and the loop is left by \<^verbatim>\<open>break\<close>.
\<close>

datatype step =
    Selected "stimulus list" "stimulus list"
  | Fallback "stimulus list"

definition iteration :: "stimulus list \<Rightarrow> stimulus list \<Rightarrow> step" where
  "iteration stimuli_copy randomized_stimuli =
     (case find (cap_ok randomized_stimuli) stimuli_copy of
        Some s \<Rightarrow> Selected (remove1 s stimuli_copy) (randomized_stimuli @ [s])
      | None \<Rightarrow> Fallback (randomized_stimuli @ stimuli_copy))"

text \<open>
  The loop. It carries, next to the two lists of the source, the passes it has made so
  far, in order: which branch each pass of the body took and what it left. A
  \<open>Fallback\<close> entry is a pass that printed the warning. The run of
  \<^verbatim>\<open>constraint_randomization\<close> is the loop started on the shuffled copy with an
  empty output; what the function returns is the first component of the run.
\<close>

function while_loop ::
  "stimulus list \<Rightarrow> stimulus list \<Rightarrow> step list \<Rightarrow> stimulus list \<times> step list" where
  "while_loop stimuli_copy randomized_stimuli passes =
     (if stimuli_copy = [] then (randomized_stimuli, passes)
      else (case iteration stimuli_copy randomized_stimuli of
              Selected pool' out' \<Rightarrow> while_loop pool' out' (passes @ [Selected pool' out'])
            | Fallback res \<Rightarrow> (res, passes @ [Fallback res])))"
  by pat_completeness auto
termination
proof (relation "measure (\<lambda>(pool, out, passes). length pool)")
  show "wf (measure (\<lambda>(pool, out, passes). length pool))"
    by simp
next
  fix stimuli_copy randomized_stimuli :: "stimulus list" and passes :: "step list" and pool' out'
  assume "iteration stimuli_copy randomized_stimuli = Selected pool' out'"
  then obtain s where s: "find (cap_ok randomized_stimuli) stimuli_copy = Some s"
    and p: "pool' = remove1 s stimuli_copy"
    by (auto simp: iteration_def split: option.splits)
  from s have "s \<in> set stimuli_copy"
    by (auto simp: find_Some_iff)
  then have "0 < length stimuli_copy"
    by (rule length_pos_if_in_set)
  with p \<open>s \<in> set stimuli_copy\<close> have "length pool' < length stimuli_copy"
    by (simp add: length_remove1)
  then show "((pool', out', passes @ [Selected pool' out']),
        (stimuli_copy, randomized_stimuli, passes))
      \<in> measure (\<lambda>(pool, out, passes). length pool)"
    by simp
qed

declare while_loop.simps [simp del]

definition constraint_randomization_run ::
  "(nat \<Rightarrow> nat) \<Rightarrow> stimulus list \<Rightarrow> stimulus list \<times> step list" where
  "constraint_randomization_run rnd stimulus_data = while_loop (shuffle rnd stimulus_data) [] []"

definition constraint_randomization :: "(nat \<Rightarrow> nat) \<Rightarrow> stimulus list \<Rightarrow> stimulus list" where
  "constraint_randomization rnd stimulus_data = fst (constraint_randomization_run rnd stimulus_data)"

text \<open>
  The same loop with a budget of passes of the \<^verbatim>\<open>while\<close> body: \<open>None\<close> when the
  budget is used up before the loop is left.
\<close>

fun while_loop_fuel :: "nat \<Rightarrow> stimulus list \<Rightarrow> stimulus list \<Rightarrow> stimulus list option" where
  "while_loop_fuel 0 stimuli_copy randomized_stimuli =
     (if stimuli_copy = [] then Some randomized_stimuli else None)"
| "while_loop_fuel (Suc n) stimuli_copy randomized_stimuli =
     (if stimuli_copy = [] then Some randomized_stimuli
      else (case iteration stimuli_copy randomized_stimuli of
              Selected pool' out' \<Rightarrow> while_loop_fuel n pool' out'
            | Fallback res \<Rightarrow> Some res))"

text \<open>A list comprehension whose body may raise.\<close>

fun map_raise :: "('a \<Rightarrow> error + 'b) \<Rightarrow> 'a list \<Rightarrow> error + 'b list" where
  "map_raise f [] = Inr []"
| "map_raise f (x # xs) = bind (f x) (\<lambda>y. bind (map_raise f xs) (\<lambda>ys. Inr (y # ys)))"

definition randomize_stimuli :: "(nat \<Rightarrow> nat) \<Rightarrow> string list \<Rightarrow> error + string list" where
  "randomize_stimuli rnd stimuli_files =
     bind (map_raise extract_filename_info stimuli_files) (\<lambda>stimulus_data.
       Inr (map filename (constraint_randomization rnd stimulus_data)))"

section \<open>The file system the loader sees\<close>

text \<open>
  The state is what the code observes and changes: the directories that exist, the CSV
  files that exist (a file is the list of its rows, a row the list of its fields, which
  is what \<^verbatim>\<open>csv.reader\<close> yields and \<^verbatim>\<open>csv.writer\<close> stores), and for each stimulus
  directory the file names \<^verbatim>\<open>os.walk\<close> meets, in its order. An effectful function
  returns its result or exception together with the state it leaves.

  Directories and files are kept under the components of their paths, so that
  \<^verbatim>\<open>results\<close>, \<^verbatim>\<open>results/\<close> and \<^verbatim>\<open>results//\<close> name one directory. An absolute path has
  the root as its first component. The working directory (no component) and the root
  always exist. A path string is resolved as POSIX does: the empty string names nothing,
  and a string that ends in a slash names a directory or nothing. The components
  \<^verbatim>\<open>.\<close> and \<^verbatim>\<open>..\<close> are kept as names and symbolic links are not followed, so
  the state describes a file system faithfully for paths without them. Permissions, the
  space left on the device and names the operating system refuses (an embedded NUL, a
  component that is too long) are outside the model.
\<close>

record fs =
  dirs :: "string list set"
  csv_files :: "string list \<rightharpoonup> string list list"
  walk :: "string \<Rightarrow> string list"

definition names :: "string \<Rightarrow> string list" where
  "names p = filter (\<lambda>c. c \<noteq> []) (split_char CHR ''/'' p)"

definition components :: "string \<Rightarrow> string list" where
  "components p = (if prefix ''/'' p then [''/''] else []) @ names p"

definition dir_at :: "fs \<Rightarrow> string list \<Rightarrow> bool" where
  "dir_at s c \<longleftrightarrow> c = [] \<or> c = [''/''] \<or> c \<in> dirs s"

definition is_dir :: "fs \<Rightarrow> string \<Rightarrow> bool" where
  "is_dir s p \<longleftrightarrow> p \<noteq> [] \<and> dir_at s (components p)"

text \<open>The regular file a path string names, if any.\<close>

definition files :: "fs \<Rightarrow> string \<Rightarrow> string list list option" where
  "files s p = (if p = [] \<or> endswith p ''/'' then None else csv_files s (components p))"

definition path_exists :: "fs \<Rightarrow> string \<Rightarrow> bool" where
  "path_exists s p \<longleftrightarrow> is_dir s p \<or> files s p \<noteq> None"

definition path_join :: "string \<Rightarrow> string \<Rightarrow> string" where
  "path_join a b =
     (if prefix ''/'' b then b
      else if a = [] \<or> endswith a ''/'' then a @ b
      else a @ ''/'' @ b)"

text \<open>The leading directories of a path, the path itself last.\<close>

definition leading_dirs :: "string list \<Rightarrow> string list list" where
  "leading_dirs c = [take k c. k \<leftarrow> [1..<Suc (length c)]]"

text \<open>
  \<^verbatim>\<open>os.mkdir(p)\<close>: nothing may be at the path, no leading component may be a regular
  file, and the parent must be an existing directory.
\<close>

definition mkdir :: "fs \<Rightarrow> string \<Rightarrow> (error + unit) \<times> fs" where
  "mkdir s p =
     (let c = components p in
      if p = [] then (Inl FileNotFoundError, s)
      else if dir_at s c \<or> csv_files s c \<noteq> None then (Inl FileExistsError, s)
      else if list_ex (\<lambda>d. csv_files s d \<noteq> None) (butlast (leading_dirs c)) then
        (Inl NotADirectoryError, s)
      else if \<not> dir_at s (butlast c) then (Inl FileNotFoundError, s)
      else (Inr (), s\<lparr>dirs := insert c (dirs s)\<rparr>))"

text \<open>
  \<^verbatim>\<open>os.makedirs(p, exist_ok=True)\<close>: the directory and every leading directory of its
  path are made where they are missing. It raises when a leading component is a regular
  file (\<^verbatim>\<open>os.mkdir\<close> of the next component fails) or the path itself is one.
\<close>

definition makedirs :: "fs \<Rightarrow> string \<Rightarrow> (error + unit) \<times> fs" where
  "makedirs s p =
     (let c = components p in
      if p = [] then (Inl FileNotFoundError, s)
      else if list_ex (\<lambda>d. csv_files s d \<noteq> None) (butlast (leading_dirs c)) then
        (Inl NotADirectoryError, s)
      else if csv_files s c \<noteq> None then (Inl FileExistsError, s)
      else (Inr (), s\<lparr>dirs := dirs s \<union> set (leading_dirs c)\<rparr>))"

text \<open>\<^verbatim>\<open>open(p, 'r')\<close> and reading all rows.\<close>

definition open_read :: "fs \<Rightarrow> string \<Rightarrow> error + string list list" where
  "open_read s p =
     (case files s p of
        Some rows \<Rightarrow> Inr rows
      | None \<Rightarrow>
          Inl (if is_dir s p then IsADirectoryError
               else if list_ex (\<lambda>d. csv_files s d \<noteq> None) (leading_dirs (components p))
                 then NotADirectoryError
               else FileNotFoundError))"

text \<open>
  \<^verbatim>\<open>open(p, 'w')\<close> and writing the rows: the path must not name a directory, no
  leading component may be a regular file and the parent must be an existing directory;
  an existing file is replaced.
\<close>

definition open_write :: "fs \<Rightarrow> string \<Rightarrow> string list list \<Rightarrow> (error + unit) \<times> fs" where
  "open_write s p rows =
     (let c = components p in
      if p = [] then (Inl FileNotFoundError, s)
      else if is_dir s p then (Inl IsADirectoryError, s)
      else if list_ex (\<lambda>d. csv_files s d \<noteq> None) (butlast (leading_dirs c)) then
        (Inl NotADirectoryError, s)
      else if \<not> dir_at s (butlast c) then (Inl FileNotFoundError, s)
      else if endswith p ''/'' then (Inl IsADirectoryError, s)
      else (Inr (), s\<lparr>csv_files := (csv_files s)(c \<mapsto> rows)\<rparr>))"

text \<open>
  When \<^verbatim>\<open>os.mkdir(p)\<close> returns: nothing is at \<open>p\<close>, no leading component is a regular
  file and the parent is a directory.
\<close>

definition can_mkdir :: "fs \<Rightarrow> string \<Rightarrow> bool" where
  "can_mkdir s p \<longleftrightarrow>
     p \<noteq> [] \<and> \<not> dir_at s (components p) \<and> csv_files s (components p) = None \<and>
     list_all (\<lambda>d. csv_files s d = None) (butlast (leading_dirs (components p))) \<and>
     dir_at s (butlast (components p))"

text \<open>
  A path string none of whose components is \<^verbatim>\<open>.\<close> or \<^verbatim>\<open>..\<close>: its components name
  the directories on the way, one each.
\<close>

definition no_dot_components :: "string \<Rightarrow> bool" where
  "no_dot_components p \<longleftrightarrow> ''.'' \<notin> set (names p) \<and> ''..'' \<notin> set (names p)"

text \<open>
  When \<^verbatim>\<open>os.makedirs(p, exist_ok=True)\<close> returns: no component of \<open>p\<close> is a regular
  file.
\<close>

definition can_makedirs :: "fs \<Rightarrow> string \<Rightarrow> bool" where
  "can_makedirs s p \<longleftrightarrow>
     p \<noteq> [] \<and> list_all (\<lambda>d. csv_files s d = None) (leading_dirs (components p))"

section \<open>Loading the stimuli\<close>

text \<open>
  \<^verbatim>\<open>progress_file\<close> is \<open>None\<close> or a string; \<^verbatim>\<open>if progress_file and ...\<close> is false for
  \<open>None\<close> and for the empty string. \<^verbatim>\<open>row[0]\<close> raises on an empty row.
\<close>

definition load_stimuli :: "fs \<Rightarrow> string \<Rightarrow> string option \<Rightarrow> error + string list" where
  "load_stimuli s stimuli_path progress_file =
     (let all_stimuli = filter (\<lambda>file. endswith file ''.wav'') (walk s stimuli_path) in
      case progress_file of
        None \<Rightarrow> Inr all_stimuli
      | Some p \<Rightarrow>
          if p \<noteq> [] \<and> path_exists s p then
            bind (open_read s p) (\<lambda>rows.
            bind (map_raise (\<lambda>row. index row 0) rows) (\<lambda>labeled_stimuli.
              Inr (filter (\<lambda>stimulus. stimulus \<notin> set labeled_stimuli) all_stimuli)))
          else Inr all_stimuli)"

text \<open>Of \<^verbatim>\<open>participant_info\<close> only the key \<^verbatim>\<open>'labeler'\<close> is read.\<close>

record participant_info =
  labeler :: string

definition progress_path :: "participant_info \<Rightarrow> string \<Rightarrow> string" where
  "progress_path pinfo phase =
     path_join (path_join ''results'' (labeler pinfo))
       (labeler pinfo @ ''_'' @ phase @ ''_progress.csv'')"

definition randomized_path :: "participant_info \<Rightarrow> string \<Rightarrow> string" where
  "randomized_path pinfo phase =
     path_join (path_join ''randomization_lists'' (labeler pinfo))
       (phase @ ''_randomized_stimuli.csv'')"

definition load_and_randomize ::
  "(nat \<Rightarrow> nat) \<Rightarrow> fs \<Rightarrow> string \<Rightarrow> participant_info \<Rightarrow> string
     \<Rightarrow> (error + string list \<times> string) \<times> fs" where
  "load_and_randomize rnd s stimuli_path pinfo phase =
     (let progress_directory = path_join ''results'' (labeler pinfo);
          progress_file_path = progress_path pinfo phase;
          randomization_directory = path_join ''randomization_lists'' (labeler pinfo);
          randomized_file_path = randomized_path pinfo phase
      in
      case makedirs s progress_directory of
        (Inl e, s1) \<Rightarrow> (Inl e, s1)
      | (Inr u, s1) \<Rightarrow>
          (if phase = ''practice'' then
             (bind (load_stimuli s1 stimuli_path (Some progress_file_path)) (\<lambda>practice_stimuli.
                Inr (practice_stimuli, progress_file_path)), s1)
           else
             (case makedirs s1 randomization_directory of
                (Inl e, s2) \<Rightarrow> (Inl e, s2)
              | (Inr u, s2) \<Rightarrow>
                  (if path_exists s2 randomized_file_path then
                     (bind (open_read s2 randomized_file_path) (\<lambda>rows.
                      bind (map_raise (\<lambda>row. index row 0) (tl rows)) (\<lambda>randomized_stimuli.
                        Inr (randomized_stimuli, progress_file_path))), s2)
                   else
                     (case bind (load_stimuli s2 stimuli_path None) (randomize_stimuli rnd) of
                        Inl e \<Rightarrow> (Inl e, s2)
                      | Inr randomized_stimuli \<Rightarrow>
                          (case open_write s2 randomized_file_path
                                  (map (\<lambda>stimulus. [stimulus]) randomized_stimuli) of
                             (Inl e, s3) \<Rightarrow> (Inl e, s3)
                           | (Inr u, s3) \<Rightarrow>
                               (Inr (randomized_stimuli, progress_file_path), s3)))))))"

section \<open>Checking the configured paths\<close>

definition check_config_paths ::
  "fs \<Rightarrow> string \<Rightarrow> string \<Rightarrow> string \<Rightarrow> string \<Rightarrow> string \<Rightarrow> (error + unit) \<times> fs" where
  "check_config_paths s test_stimuli_path practice_stimuli_path results_path pics_path random_path =
     (if \<not> path_exists s test_stimuli_path then
        (Inl (PyException ''No input folder detected. Please make sure that 'test_stimuli_path' is correctly set in the configurations''), s)
      else if \<not> path_exists s practice_stimuli_path then
        (Inl (PyException ''No input folder detected. Please make sure that 'practice_stimuli_path' is correctly set in the configurations''), s)
      else if \<not> path_exists s pics_path then
        (Inl (PyException ''No pics folder detected. Please make sure that 'pics_path' is correctly set in the configurations''), s)
      else
        (case (if \<not> path_exists s results_path then mkdir s results_path else (Inr (), s)) of
           (Inl e, s1) \<Rightarrow> (Inl e, s1)
         | (Inr u, s1) \<Rightarrow>
             (if \<not> path_exists s1 random_path then mkdir s1 random_path else (Inr (), s1))))"

section \<open>Example inputs\<close>

text \<open>
  Five records with one condition and otherwise different attributes, and four records
  that differ in every attribute.
\<close>

definition five_same_condition :: "stimulus list" where
  "five_same_condition =
     map (\<lambda>n. \<lparr>filename = n @ ''.wav'', exp = ''e'', speaker = ''spk'' @ n, trial = n,
               stimulus_origin = ''o'' @ n, name_stim = ''w'' @ n, condition = ''X''\<rparr>)
       [''1'', ''2'', ''3'', ''4'', ''5'']"

definition four_distinct :: "stimulus list" where
  "four_distinct =
     map (\<lambda>n. \<lparr>filename = n @ ''.wav'', exp = ''e'', speaker = ''spk'' @ n, trial = n,
               stimulus_origin = ''o'' @ n, name_stim = ''w'' @ n, condition = ''c'' @ n\<rparr>)
       [''1'', ''2'', ''3'', ''4'']"

text \<open>
  A store with the stimuli and the pictures in place and nothing else, and the store
  after participant \<^verbatim>\<open>p01\<close> has begun: with the results directory, and a practice and
  a test progress log that list one identifier each.
\<close>

definition bare_store :: fs where
  "bare_store =
     \<lparr>dirs = {[''stimuli''], [''stimuli'', ''test''], [''stimuli'', ''practice''], [''pics'']},
      csv_files = Map.empty,
      walk = (\<lambda>p.
        if p = ''stimuli/test/'' then
          [''expA_spk1_o1_o2_o3_o4_3_wordA_cond1.wav'', ''notes.txt'',
           ''expA_spk2_o1_o2_o3_o5_4_wordB_cond2.wav'']
        else if p = ''stimuli/practice/'' then [''prac_a.wav'', ''prac_b.wav'', ''prac_c.wav'']
        else [])\<rparr>"

definition example_store :: fs where
  "example_store =
     bare_store
       \<lparr>dirs := dirs bare_store \<union> {[''results''], [''results'', ''p01'']},
        csv_files :=
          [[''results'', ''p01'', ''p01_practice_progress.csv''] \<mapsto> [[''prac_b.wav'']],
           [''results'', ''p01'', ''p01_test_progress.csv'']
             \<mapsto> [[''expA_spk1_o1_o2_o3_o4_3_wordA_cond1.wav'']]]\<rparr>"

text \<open>The bare store with a regular file in the place of the results directory.\<close>

definition blocked_store :: fs where
  "blocked_store = bare_store\<lparr>csv_files := [[''results''] \<mapsto> []]\<rparr>"

text \<open>The records of the two test stimuli of the example store.\<close>

definition example_records :: "stimulus list" where
  "example_records =
     [\<lparr>filename = ''expA_spk1_o1_o2_o3_o4_3_wordA_cond1.wav'', exp = ''expA'',
       speaker = ''spk1'', trial = ''3'', stimulus_origin = ''o1_o2_o3_o4'',
       name_stim = ''wordA_cond1'', condition = ''cond1''\<rparr>,
      \<lparr>filename = ''expA_spk2_o1_o2_o3_o5_4_wordB_cond2.wav'', exp = ''expA'',
       speaker = ''spk2'', trial = ''4'', stimulus_origin = ''o1_o2_o3_o5'',
       name_stim = ''wordB_cond2'', condition = ''cond2''\<rparr>]"

section \<open>Properties\<close>

subsection \<open>The shuffle and the selection loop\<close>

lemma mset_swap_at:
  "i < length xs \<Longrightarrow> j < length xs \<Longrightarrow> mset (swap_at xs i j) = mset xs"
  unfolding swap_at_def by (simp add: mset_swap)

lemma length_swap_at: "length (swap_at xs i j) = length xs"
  by (simp add: swap_at_def)

lemma mset_shuffle_from:
  "i < length xs \<Longrightarrow> mset (shuffle_from rnd i xs) = mset xs"
proof (induction i arbitrary: xs)
  case 0
  then show ?case by simp
next
  case (Suc i)
  have j: "rnd (Suc i) mod (Suc i + 1) < length xs"
  proof -
    have "rnd (Suc i) mod (Suc i + 1) < Suc i + 1"
      by (rule mod_less_divisor) simp
    with Suc.prems show ?thesis by linarith
  qed
  have "mset (shuffle_from rnd i (swap_at xs (Suc i) (rnd (Suc i) mod (Suc i + 1))))
      = mset (swap_at xs (Suc i) (rnd (Suc i) mod (Suc i + 1)))"
    using Suc.prems by (intro Suc.IH) (simp add: length_swap_at)
  also have "\<dots> = mset xs"
    using Suc.prems j by (rule mset_swap_at)
  finally show ?case by simp
qed

lemma mset_shuffle: "mset (shuffle rnd xs) = mset xs"
proof (cases xs)
  case Nil
  then show ?thesis by (simp add: shuffle_def)
next
  case (Cons a list)
  then show ?thesis by (simp add: shuffle_def mset_shuffle_from)
qed

lemma find_SomeD: "find P xs = Some x \<Longrightarrow> x \<in> set xs \<and> P x"
  by (induction xs) (auto split: if_splits)

lemma iteration_cases:
  obtains (sel) s where "find (cap_ok out) pool = Some s" "s \<in> set pool" "cap_ok out s"
      "iteration pool out = Selected (remove1 s pool) (out @ [s])"
  | (fb) "find (cap_ok out) pool = None" "\<forall>s\<in>set pool. \<not> cap_ok out s"
      "iteration pool out = Fallback (out @ pool)"
proof (cases "find (cap_ok out) pool")
  case None
  moreover from None have "\<forall>s\<in>set pool. \<not> cap_ok out s"
    by (simp add: find_None_iff)
  moreover from None have "iteration pool out = Fallback (out @ pool)"
    by (simp add: iteration_def)
  ultimately show ?thesis by (rule fb)
next
  case (Some s)
  moreover from Some have "s \<in> set pool" "cap_ok out s"
    by (simp_all add: find_SomeD)
  moreover from Some have "iteration pool out = Selected (remove1 s pool) (out @ [s])"
    by (simp add: iteration_def)
  ultimately show ?thesis by (rule sel)
qed

lemma while_loop_Nil: "while_loop [] out passes = (out, passes)"
  by (simp add: while_loop.simps [of "[]" out passes])

lemma while_loop_step:
  "pool \<noteq> [] \<Longrightarrow>
   while_loop pool out passes =
     (case iteration pool out of
        Selected pool' out' \<Rightarrow> while_loop pool' out' (passes @ [Selected pool' out'])
      | Fallback res \<Rightarrow> (res, passes @ [Fallback res]))"
  by (simp add: while_loop.simps [of pool out passes])

lemma mset_while_loop: "mset (fst (while_loop pool out passes)) = mset out + mset pool"
proof (induction pool out passes rule: while_loop.induct)
  case (1 pool out passes)
  show ?case
  proof (cases "pool = []")
    case True
    then show ?thesis by (simp add: while_loop_Nil)
  next
    case False
    show ?thesis
    proof (cases pool out rule: iteration_cases)
      case (sel s)
      with False have "while_loop pool out passes
          = while_loop (remove1 s pool) (out @ [s])
              (passes @ [Selected (remove1 s pool) (out @ [s])])"
        by (simp add: while_loop_step)
      moreover from False sel(4)
      have "mset (fst (while_loop (remove1 s pool) (out @ [s])
                (passes @ [Selected (remove1 s pool) (out @ [s])])))
          = mset (out @ [s]) + mset (remove1 s pool)"
        by (rule "1.IH")
      ultimately show ?thesis using sel(2) by simp
    next
      case fb
      with False show ?thesis by (simp add: while_loop_step)
    qed
  qed
qed

lemma while_loop_fuel_enough:
  "length pool \<le> n \<Longrightarrow> while_loop_fuel n pool out = Some (fst (while_loop pool out passes))"
proof (induction n arbitrary: pool out passes)
  case 0
  then show ?case by (simp add: while_loop_Nil)
next
  case (Suc n)
  show ?case
  proof (cases "pool = []")
    case True
    then show ?thesis by (simp add: while_loop_Nil)
  next
    case False
    show ?thesis
    proof (cases pool out rule: iteration_cases)
      case (sel s)
      from sel(2) Suc.prems have "length (remove1 s pool) \<le> n"
        by (simp add: length_remove1)
      then have "while_loop_fuel n (remove1 s pool) (out @ [s])
          = Some (fst (while_loop (remove1 s pool) (out @ [s])
                (passes @ [Selected (remove1 s pool) (out @ [s])])))"
        by (rule Suc.IH)
      with False sel(4) show ?thesis by (simp add: while_loop_step)
    next
      case fb
      with False show ?thesis by (simp add: while_loop_step)
    qed
  qed
qed

lemma mset_constraint_randomization:
  "mset (constraint_randomization rnd stimulus_data) = mset stimulus_data"
  by (simp add: constraint_randomization_def constraint_randomization_run_def
      mset_while_loop mset_shuffle)

lemma length_shuffle: "length (shuffle rnd xs) = length xs"
  using mset_shuffle [of rnd xs] by (rule mset_eq_length)

subsection \<open>The extractor on the default family\<close>

text \<open>
  C2, as the code computes it. For the identifier
  \<^verbatim>\<open>expA_spk1_o1_o2_o3_o4_3_wordA_cond1.wav\<close> (nine segments, neither \<^verbatim>\<open>single\<close> nor
  \<^verbatim>\<open>gating\<close>) the extractor returns trial \<^verbatim>\<open>3\<close>, stimulus origin \<^verbatim>\<open>o1_o2_o3_o4\<close>
  and condition \<^verbatim>\<open>cond1\<close>; the name of the stimulus is every segment from the eighth
  on, joined, so it is \<^verbatim>\<open>wordA_cond1\<close>: the condition segment is part of it.
\<close>

theorem extract_default_example:
  "extract_filename_info ''expA_spk1_o1_o2_o3_o4_3_wordA_cond1.wav'' =
     Inr \<lparr>filename = ''expA_spk1_o1_o2_o3_o4_3_wordA_cond1.wav'', exp = ''expA'',
          speaker = ''spk1'', trial = ''3'', stimulus_origin = ''o1_o2_o3_o4'',
          name_stim = ''wordA_cond1'', condition = ''cond1''\<rparr>"
  by (simp add: extract_filename_info_def bind_def index_def index_last_def)

text \<open>
  C2, as stated, fails: the name of the stimulus extracted from that identifier is not
  \<^verbatim>\<open>wordA\<close>.
\<close>

theorem extract_default_name_stim_not_wordA:
  "map_sum id name_stim (extract_filename_info ''expA_spk1_o1_o2_o3_o4_3_wordA_cond1.wav'')
     \<noteq> Inr ''wordA''"
  by (simp add: extract_filename_info_def bind_def index_def index_last_def)

subsection \<open>The randomizer returns a permutation\<close>

text \<open>
  C3. Whatever the random draws, \<^verbatim>\<open>constraint_randomization\<close> returns a permutation of
  its input: the same multiset of records, hence every record as often as in the input,
  and the same length.
\<close>

theorem constraint_randomization_permutation:
  "mset (constraint_randomization rnd stimulus_data) = mset stimulus_data \<and>
   length (constraint_randomization rnd stimulus_data) = length stimulus_data"
proof -
  have m: "mset (constraint_randomization rnd stimulus_data) = mset stimulus_data"
    by (simp add: mset_constraint_randomization)
  from m have "length (constraint_randomization rnd stimulus_data) = length stimulus_data"
    by (rule mset_eq_length)
  with m show ?thesis by simp
qed

subsection \<open>The randomizer terminates\<close>

text \<open>
  C8. A pass of the loop body either moves exactly one record from the pool to the
  output, so that the pool is one shorter, or appends the whole remaining pool and
  leaves the loop. With a budget of as many passes as the input has records the loop
  is always left, with the result of \<^verbatim>\<open>constraint_randomization\<close>.
\<close>

theorem constraint_randomization_terminates:
  "((\<exists>s. iteration stimuli_copy randomized_stimuli
           = Selected (remove1 s stimuli_copy) (randomized_stimuli @ [s]) \<and>
         Suc (length (remove1 s stimuli_copy)) = length stimuli_copy) \<or>
    iteration stimuli_copy randomized_stimuli = Fallback (randomized_stimuli @ stimuli_copy)) \<and>
   while_loop_fuel (length stimulus_data) (shuffle rnd stimulus_data) []
     = Some (constraint_randomization rnd stimulus_data)"
proof
  show "(\<exists>s. iteration stimuli_copy randomized_stimuli
           = Selected (remove1 s stimuli_copy) (randomized_stimuli @ [s]) \<and>
         Suc (length (remove1 s stimuli_copy)) = length stimuli_copy) \<or>
    iteration stimuli_copy randomized_stimuli = Fallback (randomized_stimuli @ stimuli_copy)"
  proof (cases stimuli_copy randomized_stimuli rule: iteration_cases)
    case (sel s)
    from sel(2) have "0 < length stimuli_copy"
      by (rule length_pos_if_in_set)
    with sel(2) have "Suc (length (remove1 s stimuli_copy)) = length stimuli_copy"
      by (simp add: length_remove1)
    with sel(4) show ?thesis by blast
  next
    case fb
    then show ?thesis by simp
  qed
next
  have "length (shuffle rnd stimulus_data) \<le> length stimulus_data"
    by (simp add: length_shuffle)
  then show "while_loop_fuel (length stimulus_data) (shuffle rnd stimulus_data) []
     = Some (constraint_randomization rnd stimulus_data)"
    unfolding constraint_randomization_def constraint_randomization_run_def
    by (rule while_loop_fuel_enough)
qed

subsection \<open>The fallback path\<close>

lemma distinct_map_shuffle:
  "distinct (map f (shuffle rnd xs)) = distinct (map f xs)"
proof -
  have "mset (map f (shuffle rnd xs)) = mset (map f xs)"
    by (simp add: mset_shuffle)
  then show ?thesis by (rule mset_eq_imp_distinct_iff)
qed

lemma length5E:
  assumes "length p = 5"
  obtains a b c d e where "p = [a, b, c, d, e]"
proof -
  from assms have "length p = Suc (Suc (Suc (Suc (Suc 0))))"
    by simp
  then obtain a b c d e where "p = [a, b, c, d, e]"
    by (auto simp: length_Suc_conv)
  then show ?thesis by (rule that)
qed

lemma no_cap_ok_fallback:
  assumes "\<forall>s\<in>set pool. \<not> cap_ok out s"
  shows "iteration pool out = Fallback (out @ pool)"
    and "fst (while_loop pool out passes) = out @ pool"
    and "pool \<noteq> [] \<Longrightarrow> snd (while_loop pool out passes) = passes @ [Fallback (out @ pool)]"
proof -
  from assms have "find (cap_ok out) pool = None"
    by (simp add: find_None_iff)
  then show it: "iteration pool out = Fallback (out @ pool)"
    by (simp add: iteration_def)
  show "fst (while_loop pool out passes) = out @ pool"
  proof (cases "pool = []")
    case True
    then show ?thesis by (simp add: while_loop_Nil)
  next
    case False
    with it show ?thesis by (simp add: while_loop_step)
  qed
  show "snd (while_loop pool out passes) = passes @ [Fallback (out @ pool)]" if "pool \<noteq> []"
    using that it by (simp add: while_loop_step)
qed

lemma five_trace:
  assumes c: "condition a = c" "condition b = c" "condition c' = c" "condition d = c" "condition e = c"
    and sp: "distinct (map speaker [a, b, c', d, e])"
    and nm: "distinct (map name_stim [a, b, c', d, e])"
    and og: "distinct (map stimulus_origin [a, b, c', d, e])"
  shows "iteration [a, b, c', d, e] [] = Selected [b, c', d, e] [a]"
    and "iteration [b, c', d, e] [a] = Selected [c', d, e] [a, b]"
    and "iteration [c', d, e] [a, b] = Selected [d, e] [a, b, c']"
    and "iteration [d, e] [a, b, c'] = Selected [e] [a, b, c', d]"
    and "\<not> length (filter (\<lambda>stim. condition stim = condition e) [a, b, c', d]) < 4"
    and "iteration [e] [a, b, c', d] = Fallback [a, b, c', d, e]"
proof -
  show "iteration [a, b, c', d, e] [] = Selected [b, c', d, e] [a]"
    by (simp add: iteration_def cap_ok_def)
  from sp nm og show "iteration [b, c', d, e] [a] = Selected [c', d, e] [a, b]"
    by (simp add: iteration_def cap_ok_def)
  from sp nm og show "iteration [c', d, e] [a, b] = Selected [d, e] [a, b, c']"
    by (simp add: iteration_def cap_ok_def)
  from sp nm og show "iteration [d, e] [a, b, c'] = Selected [e] [a, b, c', d]"
    by (simp add: iteration_def cap_ok_def)
  from c show "\<not> length (filter (\<lambda>stim. condition stim = condition e) [a, b, c', d]) < 4"
    by simp
  from c show "iteration [e] [a, b, c', d] = Fallback [a, b, c', d, e]"
    by (simp add: iteration_def cap_ok_def)
qed

lemma five_run:
  assumes "iteration [a, b, c', d, e] [] = Selected [b, c', d, e] [a]"
    and "iteration [b, c', d, e] [a] = Selected [c', d, e] [a, b]"
    and "iteration [c', d, e] [a, b] = Selected [d, e] [a, b, c']"
    and "iteration [d, e] [a, b, c'] = Selected [e] [a, b, c', d]"
    and "iteration [e] [a, b, c', d] = Fallback [a, b, c', d, e]"
  shows "while_loop [a, b, c', d, e] [] [] =
    ([a, b, c', d, e],
     [Selected [b, c', d, e] [a], Selected [c', d, e] [a, b], Selected [d, e] [a, b, c'],
      Selected [e] [a, b, c', d], Fallback [a, b, c', d, e]])"
  using assms by (simp add: while_loop_step)

text \<open>
  C4. Five records with one common condition and pairwise different speaker, name and
  origin: whatever the shuffle made of them, the run of \<^verbatim>\<open>constraint_randomization\<close>
  makes five passes. The first four each select the head of the pool; on the fifth the
  last record fails the condition cap (four records with its condition are placed
  already), no record is found and the pass is the fallback. The result is five records,
  a permutation of the input; what the function returns is the first component of that
  run, for every input. In general, when no record of a non-empty pool passes the
  cap check against the output so far, the loop makes one more pass, the fallback, which
  appends the whole pool in its order, and returns.
\<close>

theorem five_same_condition_fallback:
  "(length stimulus_data = 5 \<and> (\<forall>x\<in>set stimulus_data. condition x = c) \<and>
    distinct (map speaker stimulus_data) \<and> distinct (map name_stim stimulus_data) \<and>
    distinct (map stimulus_origin stimulus_data) \<longrightarrow>
      (\<exists>p1 p2 p3 p4 p5.
         shuffle rnd stimulus_data = [p1, p2, p3, p4, p5] \<and>
         constraint_randomization_run rnd stimulus_data =
           ([p1, p2, p3, p4, p5],
            [Selected [p2, p3, p4, p5] [p1], Selected [p3, p4, p5] [p1, p2],
             Selected [p4, p5] [p1, p2, p3], Selected [p5] [p1, p2, p3, p4],
             Fallback [p1, p2, p3, p4, p5]]) \<and>
         \<not> length (filter (\<lambda>stim. condition stim = condition p5) [p1, p2, p3, p4]) < 4 \<and>
         \<not> cap_ok [p1, p2, p3, p4] p5 \<and>
         constraint_randomization rnd stimulus_data = [p1, p2, p3, p4, p5] \<and>
         length (constraint_randomization rnd stimulus_data) = 5 \<and>
         mset (constraint_randomization rnd stimulus_data) = mset stimulus_data)) \<and>
   constraint_randomization rnd stimulus_data
     = fst (while_loop (shuffle rnd stimulus_data) [] []) \<and>
   constraint_randomization_run rnd stimulus_data = while_loop (shuffle rnd stimulus_data) [] [] \<and>
   ((\<forall>s\<in>set stimuli_copy. \<not> cap_ok randomized_stimuli s) \<longrightarrow>
      fst (while_loop stimuli_copy randomized_stimuli passes)
        = randomized_stimuli @ stimuli_copy \<and>
      snd (while_loop stimuli_copy randomized_stimuli passes)
        = (if stimuli_copy = [] then passes
           else passes @ [Fallback (randomized_stimuli @ stimuli_copy)]))"
proof (intro conjI impI)
  show "constraint_randomization rnd stimulus_data
      = fst (while_loop (shuffle rnd stimulus_data) [] [])"
    by (simp add: constraint_randomization_def constraint_randomization_run_def)
  show "constraint_randomization_run rnd stimulus_data
      = while_loop (shuffle rnd stimulus_data) [] []"
    by (simp add: constraint_randomization_run_def)
next
  assume h: "length stimulus_data = 5 \<and> (\<forall>x\<in>set stimulus_data. condition x = c) \<and>
    distinct (map speaker stimulus_data) \<and> distinct (map name_stim stimulus_data) \<and>
    distinct (map stimulus_origin stimulus_data)"
  let ?p = "shuffle rnd stimulus_data"
  from h have "length ?p = 5"
    by (simp add: length_shuffle)
  then obtain p1 p2 p3 p4 p5 where p: "?p = [p1, p2, p3, p4, p5]"
    by (rule length5E)
  have "set ?p = set stimulus_data"
    using mset_shuffle [of rnd stimulus_data] by (rule mset_eq_setD)
  with h p have c: "condition p1 = c" "condition p2 = c" "condition p3 = c"
      "condition p4 = c" "condition p5 = c"
    by auto
  from h have "distinct (map speaker ?p)" "distinct (map name_stim ?p)"
      "distinct (map stimulus_origin ?p)"
    by (simp_all add: distinct_map_shuffle)
  with p have d: "distinct (map speaker [p1, p2, p3, p4, p5])"
      "distinct (map name_stim [p1, p2, p3, p4, p5])"
      "distinct (map stimulus_origin [p1, p2, p3, p4, p5])"
    by simp_all
  note t = five_trace [OF c d]
  have run: "constraint_randomization_run rnd stimulus_data =
      ([p1, p2, p3, p4, p5],
       [Selected [p2, p3, p4, p5] [p1], Selected [p3, p4, p5] [p1, p2],
        Selected [p4, p5] [p1, p2, p3], Selected [p5] [p1, p2, p3, p4],
        Fallback [p1, p2, p3, p4, p5]])"
    unfolding constraint_randomization_run_def p
    using t(1-4,6) by (rule five_run)
  from t(5) have nc: "\<not> cap_ok [p1, p2, p3, p4] p5"
    by (simp add: cap_ok_def)
  have r: "constraint_randomization rnd stimulus_data = [p1, p2, p3, p4, p5]"
    by (simp add: constraint_randomization_def run)
  have m: "mset (constraint_randomization rnd stimulus_data) = mset stimulus_data"
    by (rule mset_constraint_randomization)
  have l: "length (constraint_randomization rnd stimulus_data) = 5"
    by (simp add: r)
  from p run t(5) nc r l m show "\<exists>p1 p2 p3 p4 p5.
         shuffle rnd stimulus_data = [p1, p2, p3, p4, p5] \<and>
         constraint_randomization_run rnd stimulus_data =
           ([p1, p2, p3, p4, p5],
            [Selected [p2, p3, p4, p5] [p1], Selected [p3, p4, p5] [p1, p2],
             Selected [p4, p5] [p1, p2, p3], Selected [p5] [p1, p2, p3, p4],
             Fallback [p1, p2, p3, p4, p5]]) \<and>
         \<not> length (filter (\<lambda>stim. condition stim = condition p5) [p1, p2, p3, p4]) < 4 \<and>
         \<not> cap_ok [p1, p2, p3, p4] p5 \<and>
         constraint_randomization rnd stimulus_data = [p1, p2, p3, p4, p5] \<and>
         length (constraint_randomization rnd stimulus_data) = 5 \<and>
         mset (constraint_randomization rnd stimulus_data) = mset stimulus_data"
    by (intro exI conjI)
next
  assume "\<forall>s\<in>set stimuli_copy. \<not> cap_ok randomized_stimuli s"
  then show "fst (while_loop stimuli_copy randomized_stimuli passes)
      = randomized_stimuli @ stimuli_copy"
    by (rule no_cap_ok_fallback)
next
  assume a: "\<forall>s\<in>set stimuli_copy. \<not> cap_ok randomized_stimuli s"
  show "snd (while_loop stimuli_copy randomized_stimuli passes)
        = (if stimuli_copy = [] then passes
           else passes @ [Fallback (randomized_stimuli @ stimuli_copy)])"
  proof (cases "stimuli_copy = []")
    case True
    then show ?thesis by (simp add: while_loop_Nil)
  next
    case False
    with no_cap_ok_fallback(3) [OF a False, of passes] show ?thesis by simp
  qed
qed

text \<open>
  The five example records satisfy the hypotheses. With all draws of the shuffle 0 the
  pool is the input rotated by one; the run selects four times and falls back on the
  first record of the input.
\<close>

theorem five_same_condition_fallback_witness:
  "length five_same_condition = 5 \<and>
   list_all (\<lambda>x. condition x = ''X'') five_same_condition \<and>
   distinct (map speaker five_same_condition) \<and>
   distinct (map name_stim five_same_condition) \<and>
   distinct (map stimulus_origin five_same_condition) \<and>
   shuffle (\<lambda>i. 0) five_same_condition
     = drop 1 five_same_condition @ take 1 five_same_condition \<and>
   fst (constraint_randomization_run (\<lambda>i. 0) five_same_condition)
     = drop 1 five_same_condition @ take 1 five_same_condition \<and>
   map (case_step (\<lambda>pool out. length out) (\<lambda>res. 0))
       (snd (constraint_randomization_run (\<lambda>i. 0) five_same_condition))
     = [1, 2, 3, 4, 0] \<and>
   constraint_randomization (\<lambda>i. 0) five_same_condition
     = drop 1 five_same_condition @ take 1 five_same_condition \<and>
   list_all (\<lambda>s. \<not> cap_ok (take 4 five_same_condition) s) (drop 4 five_same_condition) \<and>
   while_loop (drop 4 five_same_condition) (take 4 five_same_condition) []
     = (five_same_condition, [Fallback five_same_condition])"
proof -
  note t = five_same_condition_fallback [of five_same_condition "''X''" "\<lambda>i. 0"
      "drop 4 five_same_condition" "take 4 five_same_condition" "[]"]
  have h1: "length five_same_condition = 5 \<and>
      (\<forall>x\<in>set five_same_condition. condition x = ''X'') \<and>
      distinct (map speaker five_same_condition) \<and>
      distinct (map name_stim five_same_condition) \<and>
      distinct (map stimulus_origin five_same_condition)"
    by (simp add: five_same_condition_def)
  have h2: "\<forall>s\<in>set (drop 4 five_same_condition). \<not> cap_ok (take 4 five_same_condition) s"
    by (simp add: five_same_condition_def cap_ok_def)
  have s: "shuffle (\<lambda>i. 0) five_same_condition
      = drop 1 five_same_condition @ take 1 five_same_condition"
    by code_simp
  from t [THEN conjunct1] h1 have "\<exists>p1 p2 p3 p4 p5.
         shuffle (\<lambda>i. 0) five_same_condition = [p1, p2, p3, p4, p5] \<and>
         constraint_randomization_run (\<lambda>i. 0) five_same_condition =
           ([p1, p2, p3, p4, p5],
            [Selected [p2, p3, p4, p5] [p1], Selected [p3, p4, p5] [p1, p2],
             Selected [p4, p5] [p1, p2, p3], Selected [p5] [p1, p2, p3, p4],
             Fallback [p1, p2, p3, p4, p5]]) \<and>
         \<not> length (filter (\<lambda>stim. condition stim = condition p5) [p1, p2, p3, p4]) < 4 \<and>
         \<not> cap_ok [p1, p2, p3, p4] p5 \<and>
         constraint_randomization (\<lambda>i. 0) five_same_condition = [p1, p2, p3, p4, p5] \<and>
         length (constraint_randomization (\<lambda>i. 0) five_same_condition) = 5 \<and>
         mset (constraint_randomization (\<lambda>i. 0) five_same_condition)
           = mset five_same_condition"
    by (rule mp)
  then obtain p1 p2 p3 p4 p5 where
      p: "shuffle (\<lambda>i. 0) five_same_condition = [p1, p2, p3, p4, p5]"
      and run: "constraint_randomization_run (\<lambda>i. 0) five_same_condition =
           ([p1, p2, p3, p4, p5],
            [Selected [p2, p3, p4, p5] [p1], Selected [p3, p4, p5] [p1, p2],
             Selected [p4, p5] [p1, p2, p3], Selected [p5] [p1, p2, p3, p4],
             Fallback [p1, p2, p3, p4, p5]])"
      and cr: "constraint_randomization (\<lambda>i. 0) five_same_condition = [p1, p2, p3, p4, p5]"
    by blast
  from run p s have r1: "fst (constraint_randomization_run (\<lambda>i. 0) five_same_condition)
      = drop 1 five_same_condition @ take 1 five_same_condition"
    by simp
  from run have r2: "map (case_step (\<lambda>pool out. length out) (\<lambda>res. 0))
       (snd (constraint_randomization_run (\<lambda>i. 0) five_same_condition))
     = [1, 2, 3, 4, 0]"
    by simp
  from cr p s have r3: "constraint_randomization (\<lambda>i. 0) five_same_condition
      = drop 1 five_same_condition @ take 1 five_same_condition"
    by simp
  from t [THEN conjunct2, THEN conjunct2, THEN conjunct2] h2
  have f: "fst (while_loop (drop 4 five_same_condition) (take 4 five_same_condition) [])
        = take 4 five_same_condition @ drop 4 five_same_condition \<and>
      snd (while_loop (drop 4 five_same_condition) (take 4 five_same_condition) [])
        = (if drop 4 five_same_condition = [] then []
           else [] @ [Fallback (take 4 five_same_condition @ drop 4 five_same_condition)])"
    by (rule mp)
  have ne: "drop 4 five_same_condition \<noteq> []"
    by (simp add: five_same_condition_def)
  from f ne have r4: "while_loop (drop 4 five_same_condition) (take 4 five_same_condition) []
      = (five_same_condition, [Fallback five_same_condition])"
    by (simp add: prod_eq_iff)
  from h1 have h1': "list_all (\<lambda>x. condition x = ''X'') five_same_condition"
    by (simp add: list_all_iff)
  from h2 have h2': "list_all (\<lambda>s. \<not> cap_ok (take 4 five_same_condition) s)
      (drop 4 five_same_condition)"
    by (simp add: list_all_iff)
  from h1 h1' s r1 r2 r3 h2' r4 show ?thesis by simp
qed

subsection \<open>Caps on small inputs\<close>

lemma count_distinct_le_1:
  "distinct (map f ys) \<Longrightarrow> length (filter (\<lambda>t. f t = v) ys) \<le> 1"
proof (induction ys)
  case Nil
  then show ?case by simp
next
  case (Cons a ys)
  show ?case
  proof (cases "f a = v")
    case True
    from Cons.prems have "f a \<notin> f ` set ys"
      by simp
    with True have "\<forall>t\<in>set ys. f t \<noteq> v"
      by (metis imageI)
    then have "filter (\<lambda>t. f t = v) ys = []"
      by (simp add: filter_empty_conv)
    with True show ?thesis by simp
  next
    case False
    with Cons show ?thesis by simp
  qed
qed

lemma prefix_count_le_1:
  assumes "distinct (map f xs)"
  shows "length (filter (\<lambda>t. f t = v) (take n (constraint_randomization rnd xs))) \<le> 1"
proof -
  have "mset (map f (constraint_randomization rnd xs)) = mset (map f xs)"
    by (simp add: mset_constraint_randomization)
  then have "distinct (map f (constraint_randomization rnd xs)) = distinct (map f xs)"
    by (rule mset_eq_imp_distinct_iff)
  with assms have "distinct (take n (map f (constraint_randomization rnd xs)))"
    by (simp add: distinct_take)
  then have "distinct (map f (take n (constraint_randomization rnd xs)))"
    by (simp add: take_map)
  then show ?thesis by (rule count_distinct_le_1)
qed


text \<open>
  C5. At most four records that differ pairwise in condition, speaker, name and origin:
  in every prefix of the output every condition and every origin occurs fewer than 4
  times, every name and every speaker fewer than 3 times. And a pass of the loop selects
  a record only when its four counts in the output so far are below the caps.
\<close>

theorem small_distinct_input_caps:
  "(length stimulus_data \<le> 4 \<and> distinct (map condition stimulus_data) \<and>
    distinct (map speaker stimulus_data) \<and> distinct (map name_stim stimulus_data) \<and>
    distinct (map stimulus_origin stimulus_data) \<longrightarrow>
      (\<forall>n v.
         length (filter (\<lambda>stim. condition stim = v)
                   (take n (constraint_randomization rnd stimulus_data))) < 4 \<and>
         length (filter (\<lambda>stim. name_stim stim = v)
                   (take n (constraint_randomization rnd stimulus_data))) < 3 \<and>
         length (filter (\<lambda>stim. speaker stim = v)
                   (take n (constraint_randomization rnd stimulus_data))) < 3 \<and>
         length (filter (\<lambda>stim. stimulus_origin stim = v)
                   (take n (constraint_randomization rnd stimulus_data))) < 4)) \<and>
   (iteration stimuli_copy randomized_stimuli = Selected pool' out' \<longrightarrow>
      (\<exists>s. s \<in> set stimuli_copy \<and> pool' = remove1 s stimuli_copy \<and>
           out' = randomized_stimuli @ [s] \<and>
           length (filter (\<lambda>stim. condition stim = condition s) randomized_stimuli) < 4 \<and>
           length (filter (\<lambda>stim. name_stim stim = name_stim s) randomized_stimuli) < 3 \<and>
           length (filter (\<lambda>stim. speaker stim = speaker s) randomized_stimuli) < 3 \<and>
           length (filter (\<lambda>stim. stimulus_origin stim = stimulus_origin s)
                     randomized_stimuli) < 4))"
proof (intro conjI impI allI)
  fix n v
  assume h: "length stimulus_data \<le> 4 \<and> distinct (map condition stimulus_data) \<and>
    distinct (map speaker stimulus_data) \<and> distinct (map name_stim stimulus_data) \<and>
    distinct (map stimulus_origin stimulus_data)"
  let ?pre = "take n (constraint_randomization rnd stimulus_data)"
  from h have "distinct (map condition stimulus_data)"
    by simp
  then have "length (filter (\<lambda>stim. condition stim = v) ?pre) \<le> 1"
    by (rule prefix_count_le_1)
  then show "length (filter (\<lambda>stim. condition stim = v) ?pre) < 4"
    by simp
  from h have "distinct (map name_stim stimulus_data)"
    by simp
  then have "length (filter (\<lambda>stim. name_stim stim = v) ?pre) \<le> 1"
    by (rule prefix_count_le_1)
  then show "length (filter (\<lambda>stim. name_stim stim = v) ?pre) < 3"
    by simp
  from h have "distinct (map speaker stimulus_data)"
    by simp
  then have "length (filter (\<lambda>stim. speaker stim = v) ?pre) \<le> 1"
    by (rule prefix_count_le_1)
  then show "length (filter (\<lambda>stim. speaker stim = v) ?pre) < 3"
    by simp
  from h have "distinct (map stimulus_origin stimulus_data)"
    by simp
  then have "length (filter (\<lambda>stim. stimulus_origin stim = v) ?pre) \<le> 1"
    by (rule prefix_count_le_1)
  then show "length (filter (\<lambda>stim. stimulus_origin stim = v) ?pre) < 4"
    by simp
next
  assume a: "iteration stimuli_copy randomized_stimuli = Selected pool' out'"
  show "\<exists>s. s \<in> set stimuli_copy \<and> pool' = remove1 s stimuli_copy \<and>
           out' = randomized_stimuli @ [s] \<and>
           length (filter (\<lambda>stim. condition stim = condition s) randomized_stimuli) < 4 \<and>
           length (filter (\<lambda>stim. name_stim stim = name_stim s) randomized_stimuli) < 3 \<and>
           length (filter (\<lambda>stim. speaker stim = speaker s) randomized_stimuli) < 3 \<and>
           length (filter (\<lambda>stim. stimulus_origin stim = stimulus_origin s)
                     randomized_stimuli) < 4"
  proof (cases stimuli_copy randomized_stimuli rule: iteration_cases)
    case (sel s)
    from sel(4) a have "pool' = remove1 s stimuli_copy" "out' = randomized_stimuli @ [s]"
      by simp_all
    with sel(2,3) show ?thesis
      unfolding cap_ok_def by blast
  next
    case fb
    with a show ?thesis by simp
  qed
qed

text \<open>The four example records satisfy the hypotheses.\<close>

theorem small_distinct_input_caps_witness:
  "length four_distinct \<le> 4 \<and> distinct (map condition four_distinct) \<and>
   distinct (map speaker four_distinct) \<and> distinct (map name_stim four_distinct) \<and>
   distinct (map stimulus_origin four_distinct) \<and>
   length (filter (\<lambda>stim. condition stim = ''c2'')
             (take 3 (constraint_randomization (\<lambda>i. 0) four_distinct))) < 4 \<and>
   length (filter (\<lambda>stim. name_stim stim = ''w2'')
             (take 3 (constraint_randomization (\<lambda>i. 0) four_distinct))) < 3 \<and>
   length (filter (\<lambda>stim. speaker stim = ''spk2'')
             (take 3 (constraint_randomization (\<lambda>i. 0) four_distinct))) < 3 \<and>
   length (filter (\<lambda>stim. stimulus_origin stim = ''o2'')
             (take 3 (constraint_randomization (\<lambda>i. 0) four_distinct))) < 4 \<and>
   iteration four_distinct [] = Selected (drop 1 four_distinct) (take 1 four_distinct) \<and>
   cap_ok [] (four_distinct ! 0)"
proof -
  note t = small_distinct_input_caps [of four_distinct "\<lambda>i. 0" four_distinct "[]"
      "drop 1 four_distinct" "take 1 four_distinct"]
  have h1: "length four_distinct \<le> 4 \<and> distinct (map condition four_distinct) \<and>
      distinct (map speaker four_distinct) \<and> distinct (map name_stim four_distinct) \<and>
      distinct (map stimulus_origin four_distinct)"
    by (simp add: four_distinct_def)
  have h2: "iteration four_distinct [] = Selected (drop 1 four_distinct) (take 1 four_distinct)"
    by (simp add: four_distinct_def iteration_def cap_ok_def)
  from t [THEN conjunct1] h1 have c1: "\<forall>n v.
         length (filter (\<lambda>stim. condition stim = v)
                   (take n (constraint_randomization (\<lambda>i. 0) four_distinct))) < 4 \<and>
         length (filter (\<lambda>stim. name_stim stim = v)
                   (take n (constraint_randomization (\<lambda>i. 0) four_distinct))) < 3 \<and>
         length (filter (\<lambda>stim. speaker stim = v)
                   (take n (constraint_randomization (\<lambda>i. 0) four_distinct))) < 3 \<and>
         length (filter (\<lambda>stim. stimulus_origin stim = v)
                   (take n (constraint_randomization (\<lambda>i. 0) four_distinct))) < 4"
    by (rule mp)
  from t [THEN conjunct2] h2 obtain s where "take 1 four_distinct = [] @ [s]" "cap_ok [] s"
    unfolding cap_ok_def by blast
  then have c2: "cap_ok [] (four_distinct ! 0)"
    by (simp add: four_distinct_def)
  from c1 have "length (filter (\<lambda>stim. condition stim = ''c2'')
             (take 3 (constraint_randomization (\<lambda>i. 0) four_distinct))) < 4 \<and>
   length (filter (\<lambda>stim. name_stim stim = ''w2'')
             (take 3 (constraint_randomization (\<lambda>i. 0) four_distinct))) < 3 \<and>
   length (filter (\<lambda>stim. speaker stim = ''spk2'')
             (take 3 (constraint_randomization (\<lambda>i. 0) four_distinct))) < 3 \<and>
   length (filter (\<lambda>stim. stimulus_origin stim = ''o2'')
             (take 3 (constraint_randomization (\<lambda>i. 0) four_distinct))) < 4"
    by (intro conjI) (rule c1 [rule_format, THEN conjunct1] c1 [rule_format, THEN conjunct2, THEN conjunct1]
      c1 [rule_format, THEN conjunct2, THEN conjunct2, THEN conjunct1]
      c1 [rule_format, THEN conjunct2, THEN conjunct2, THEN conjunct2])+
  with h1 h2 c2 show ?thesis by (intro conjI) simp_all
qed


subsection \<open>Loading with and without a progress file\<close>

lemma map_raise_index_0:
  "[] \<notin> set rows \<Longrightarrow> map_raise (\<lambda>row. index row 0) rows = Inr (map hd rows)"
proof (induction rows)
  case Nil
  then show ?case by simp
next
  case (Cons row rows)
  then have "row \<noteq> []" and "[] \<notin> set rows"
    by auto
  with Cons.IH show ?case
    by (simp add: bind_def index_def hd_conv_nth)
qed

lemma load_stimuli_no_file:
  assumes "progress_file = None \<or> (\<exists>p. progress_file = Some p \<and> \<not> path_exists s p)"
  shows "load_stimuli s stimuli_path progress_file
    = Inr (filter (\<lambda>file. endswith file ''.wav'') (walk s stimuli_path))"
  using assms by (auto simp: load_stimuli_def)

lemma load_stimuli_with_file:
  assumes "p \<noteq> []" and "files s p = Some rows" and "[] \<notin> set rows"
  shows "load_stimuli s stimuli_path (Some p)
    = Inr (filter (\<lambda>stimulus. stimulus \<notin> set (map hd rows))
             (filter (\<lambda>file. endswith file ''.wav'') (walk s stimuli_path)))"
proof -
  from assms(2) have "path_exists s p" and "open_read s p = Inr rows"
    by (simp_all add: path_exists_def open_read_def)
  moreover from assms(3) have "map_raise (\<lambda>row. index row 0) rows = Inr (map hd rows)"
    by (rule map_raise_index_0)
  ultimately show ?thesis
    using assms(1) by (simp add: load_stimuli_def bind_def)
qed

text \<open>
  C10. Called with no progress file (\<open>None\<close>), or with a path at which nothing exists,
  \<^verbatim>\<open>load_stimuli\<close> returns every enumerated \<^verbatim>\<open>.wav\<close> name, unfiltered, and raises
  nothing. The names of the progress log are filtered out when the file is there (its
  rows holding at least one field each).
\<close>

theorem load_stimuli_without_progress_file:
  "((progress_file = None \<or> (\<exists>p. progress_file = Some p \<and> \<not> path_exists s p)) \<longrightarrow>
      load_stimuli s stimuli_path progress_file
        = Inr (filter (\<lambda>file. endswith file ''.wav'') (walk s stimuli_path))) \<and>
   (progress_file = Some p \<and> p \<noteq> [] \<and> files s p = Some rows \<and> [] \<notin> set rows \<longrightarrow>
      load_stimuli s stimuli_path progress_file
        = Inr (filter (\<lambda>stimulus. stimulus \<notin> set (map hd rows))
                 (filter (\<lambda>file. endswith file ''.wav'') (walk s stimuli_path))))"
  by (auto simp: load_stimuli_no_file load_stimuli_with_file)

lemmas store_simps =
  example_store_def bare_store_def path_exists_def is_dir_def dir_at_def files_def
  components_def names_def endswith_def suffix_to_prefix

lemma example_walk:
  "walk example_store = walk bare_store"
  by (simp add: example_store_def)


text \<open>
  In the example store: no progress file given, a progress file that does not exist, and
  the progress log of \<^verbatim>\<open>p01\<close>.
\<close>

theorem load_stimuli_without_progress_file_witness:
  "load_stimuli example_store ''stimuli/practice/'' None
     = Inr [''prac_a.wav'', ''prac_b.wav'', ''prac_c.wav''] \<and>
   load_stimuli example_store ''stimuli/practice/'' (Some ''results/p02/p02_practice_progress.csv'')
     = Inr [''prac_a.wav'', ''prac_b.wav'', ''prac_c.wav''] \<and>
   load_stimuli example_store ''stimuli/practice/'' (Some ''results/p01/p01_practice_progress.csv'')
     = Inr [''prac_a.wav'', ''prac_c.wav'']"
proof -
  have w: "filter (\<lambda>file. endswith file ''.wav'') (walk example_store ''stimuli/practice/'')
      = [''prac_a.wav'', ''prac_b.wav'', ''prac_c.wav'']"
    by (simp add: store_simps)
  have n: "\<not> path_exists example_store ''results/p02/p02_practice_progress.csv''"
    by (simp add: store_simps)
  have f: "files example_store ''results/p01/p01_practice_progress.csv'' = Some [[''prac_b.wav'']]"
    by (simp add: store_simps)
  have 1: "load_stimuli example_store ''stimuli/practice/'' None
      = Inr [''prac_a.wav'', ''prac_b.wav'', ''prac_c.wav'']"
    using load_stimuli_without_progress_file
      [of None example_store "''stimuli/practice/''", THEN conjunct1]
    by (simp add: w)
  have 2: "load_stimuli example_store ''stimuli/practice/''
        (Some ''results/p02/p02_practice_progress.csv'')
      = Inr [''prac_a.wav'', ''prac_b.wav'', ''prac_c.wav'']"
    using load_stimuli_without_progress_file
      [of "Some ''results/p02/p02_practice_progress.csv''" example_store "''stimuli/practice/''",
        THEN conjunct1] n
    by (simp add: w)
  have 3: "load_stimuli example_store ''stimuli/practice/''
        (Some ''results/p01/p01_practice_progress.csv'')
      = Inr [''prac_a.wav'', ''prac_c.wav'']"
    using load_stimuli_without_progress_file
      [of "Some ''results/p01/p01_practice_progress.csv''" example_store "''stimuli/practice/''"
        "''results/p01/p01_practice_progress.csv''" "[[''prac_b.wav'']]", THEN conjunct2] f
    by (simp add: w)
  from 1 2 3 show ?thesis by simp
qed

subsection \<open>Checking the configured paths\<close>

lemma mkdir_returns: "can_mkdir s p \<Longrightarrow> mkdir s p = (Inr (), s\<lparr>dirs := insert (components p) (dirs s)\<rparr>)"
  by (simp add: can_mkdir_def mkdir_def Let_def list_all_iff list_ex_iff)

lemma mkdir_raises:
  "\<not> can_mkdir s p \<Longrightarrow>
   mkdir s p = (Inl FileNotFoundError, s) \<or> mkdir s p = (Inl FileExistsError, s) \<or>
   mkdir s p = (Inl NotADirectoryError, s)"
  by (auto simp: can_mkdir_def mkdir_def Let_def list_all_iff list_ex_iff)

lemma can_mkdir_not_exists: "can_mkdir s p \<Longrightarrow> \<not> path_exists s p"
  by (auto simp: can_mkdir_def path_exists_def is_dir_def files_def)

lemma path_exists_mono:
  "path_exists s p \<Longrightarrow> path_exists (s\<lparr>dirs := insert c (dirs s)\<rparr>) p"
  by (auto simp: path_exists_def is_dir_def dir_at_def files_def)

lemma path_exists_insert:
  "path_exists (s\<lparr>dirs := insert c (dirs s)\<rparr>) p \<longleftrightarrow>
     path_exists s p \<or> (p \<noteq> [] \<and> components p = c)"
  by (auto simp: path_exists_def is_dir_def dir_at_def files_def)

lemma can_mkdir_insert:
  "can_mkdir s p \<Longrightarrow> components p \<noteq> c \<Longrightarrow> can_mkdir (s\<lparr>dirs := insert c (dirs s)\<rparr>) p"
  by (auto simp: can_mkdir_def dir_at_def)

text \<open>
  C9 fails on the code as stated: an exception is raised also when the three directories
  exist. In the bare store they do; the results directory is made, and then
  \<^verbatim>\<open>os.mkdir\<close> of a randomization directory whose parent does not exist raises
  \<^verbatim>\<open>FileNotFoundError\<close>, with the results directory already created.
\<close>

theorem check_config_paths_mkdir_error:
  "path_exists bare_store ''stimuli/test/'' \<and> path_exists bare_store ''stimuli/practice/'' \<and>
   path_exists bare_store ''pics/'' \<and>
   check_config_paths bare_store ''stimuli/test/'' ''stimuli/practice/'' ''results/'' ''pics/''
       ''nope/randomization_lists/''
     = (Inl FileNotFoundError, bare_store\<lparr>dirs := insert [''results''] (dirs bare_store)\<rparr>) \<and>
   [''results''] \<notin> dirs bare_store"
  by (simp add: check_config_paths_def mkdir_def Let_def store_simps leading_dirs_def upt_rec)

text \<open>
  C9, amended. \<^verbatim>\<open>check_config_paths\<close> raises one of its own exceptions exactly when
  the test stimuli, the practice stimuli or the pictures path does not exist, and then
  the file system is as it was. When the three exist, and the results and the
  randomization path each exist or can be made by \<^verbatim>\<open>os.mkdir\<close>, it returns, having
  made those of the two that did not exist.
\<close>

theorem check_config_paths_own_exception_iff:
  "((\<exists>m. fst (check_config_paths s test_stimuli_path practice_stimuli_path results_path
                 pics_path random_path) = Inl (PyException m)) \<longleftrightarrow>
      (\<not> path_exists s test_stimuli_path \<or> \<not> path_exists s practice_stimuli_path \<or>
       \<not> path_exists s pics_path)) \<and>
   ((\<exists>m. fst (check_config_paths s test_stimuli_path practice_stimuli_path results_path
                 pics_path random_path) = Inl (PyException m)) \<longrightarrow>
      snd (check_config_paths s test_stimuli_path practice_stimuli_path results_path
             pics_path random_path) = s) \<and>
   (path_exists s test_stimuli_path \<and> path_exists s practice_stimuli_path \<and>
    path_exists s pics_path \<and>
    (path_exists s results_path \<or> can_mkdir s results_path) \<and>
    (path_exists s random_path \<or> can_mkdir s random_path) \<longrightarrow>
      check_config_paths s test_stimuli_path practice_stimuli_path results_path
          pics_path random_path
        = (Inr (), s\<lparr>dirs := dirs s
              \<union> (if path_exists s results_path then {} else {components results_path})
              \<union> (if path_exists s random_path then {} else {components random_path})\<rparr>))"
proof -
  let ?r = "check_config_paths s test_stimuli_path practice_stimuli_path results_path
      pics_path random_path"
  let ?ok = "path_exists s test_stimuli_path \<and> path_exists s practice_stimuli_path \<and>
      path_exists s pics_path"
  have bad: "\<exists>m. ?r = (Inl (PyException m), s)" if "\<not> ?ok"
    using that by (auto simp: check_config_paths_def)
  have own: "fst ?r \<noteq> Inl (PyException m)" if "?ok" for m
  proof -
    have 1: "mkdir s' p \<noteq> (Inl (PyException m), x)" for s' p x
      by (cases "can_mkdir s' p") (use mkdir_raises [of s' p] in \<open>auto simp: mkdir_returns\<close>)
    then have 2: "fst (mkdir s' p) \<noteq> Inl (PyException m)" for s' p
      by (cases "mkdir s' p") auto
    show ?thesis
      using that 1 2
      by (auto simp: check_config_paths_def split: prod.splits sum.splits if_splits)
  qed
  have good: "?r = (Inr (), s\<lparr>dirs := dirs s
              \<union> (if path_exists s results_path then {} else {components results_path})
              \<union> (if path_exists s random_path then {} else {components random_path})\<rparr>)"
    if "?ok" and r: "path_exists s results_path \<or> can_mkdir s results_path"
      and l: "path_exists s random_path \<or> can_mkdir s random_path"
  proof (cases "path_exists s results_path")
    case True
    show ?thesis
    proof (cases "path_exists s random_path")
      case True
      with \<open>path_exists s results_path\<close> \<open>?ok\<close> show ?thesis
        by (simp add: check_config_paths_def)
    next
      case False
      with l have "can_mkdir s random_path" by simp
      with False \<open>path_exists s results_path\<close> \<open>?ok\<close> show ?thesis
        by (simp add: check_config_paths_def mkdir_returns)
    qed
  next
    case False
    with r have cr: "can_mkdir s results_path" by simp
    let ?s1 = "s\<lparr>dirs := insert (components results_path) (dirs s)\<rparr>"
    show ?thesis
    proof (cases "path_exists s random_path")
      case True
      then have "path_exists ?s1 random_path"
        by (rule path_exists_mono)
      with True False cr \<open>?ok\<close> show ?thesis
        by (simp add: check_config_paths_def mkdir_returns)
    next
      case nl: False
      with l have cl: "can_mkdir s random_path" by simp
      show ?thesis
      proof (cases "components random_path = components results_path")
        case True
        from cl have "random_path \<noteq> []" by (simp add: can_mkdir_def)
        with True have "path_exists ?s1 random_path"
          by (simp add: path_exists_insert)
        with True nl False cr \<open>?ok\<close> show ?thesis
          by (simp add: check_config_paths_def mkdir_returns)
      next
        case ne: False
        with nl have "\<not> path_exists ?s1 random_path"
          by (simp add: path_exists_insert)
        moreover from cl ne have "can_mkdir ?s1 random_path"
          by (rule can_mkdir_insert)
        ultimately show ?thesis
          using nl False cr \<open>?ok\<close>
          by (simp add: check_config_paths_def mkdir_returns insert_commute)
      qed
    qed
  qed
  from bad own good show ?thesis
    by (cases ?ok) auto
qed


text \<open>
  In the bare store the three directories exist and the two others are made; with another
  practice path the check raises its own exception and leaves the store as it was.
\<close>

theorem check_config_paths_own_exception_iff_witness:
  "check_config_paths bare_store ''stimuli/test/'' ''stimuli/practice/'' ''results/''
       ''pics/'' ''randomization_lists/''
     = (Inr (), bare_store\<lparr>dirs := dirs bare_store \<union> {[''results'']}
                             \<union> {[''randomization_lists'']}\<rparr>) \<and>
   (\<exists>m. fst (check_config_paths bare_store ''stimuli/test/'' ''stimuli/missing/''
               ''results/'' ''pics/'' ''randomization_lists/'') = Inl (PyException m)) \<and>
   snd (check_config_paths bare_store ''stimuli/test/'' ''stimuli/missing/''
          ''results/'' ''pics/'' ''randomization_lists/'') = bare_store"
proof -
  have e: "path_exists bare_store ''stimuli/test/''"
      "path_exists bare_store ''stimuli/practice/''"
      "path_exists bare_store ''pics/''"
      "\<not> path_exists bare_store ''stimuli/missing/''"
      "\<not> path_exists bare_store ''results/''"
      "\<not> path_exists bare_store ''randomization_lists/''"
    by (simp_all add: store_simps)
  have c: "can_mkdir bare_store ''results/''" "can_mkdir bare_store ''randomization_lists/''"
    by (simp_all add: can_mkdir_def store_simps leading_dirs_def)
  have n: "components ''results/'' = [''results'']"
      "components ''randomization_lists/'' = [''randomization_lists'']"
    by (simp_all add: components_def names_def)
  note ok = check_config_paths_own_exception_iff [of bare_store "''stimuli/test/''"
      "''stimuli/practice/''" "''results/''" "''pics/''" "''randomization_lists/''"]
  note bad = check_config_paths_own_exception_iff [of bare_store "''stimuli/test/''"
      "''stimuli/missing/''" "''results/''" "''pics/''" "''randomization_lists/''"]
  from ok [THEN conjunct2, THEN conjunct2] e c
  have 1: "check_config_paths bare_store ''stimuli/test/'' ''stimuli/practice/''
       ''results/'' ''pics/'' ''randomization_lists/''
     = (Inr (), bare_store\<lparr>dirs := dirs bare_store \<union> {[''results'']}
                             \<union> {[''randomization_lists'']}\<rparr>)"
    by (simp add: n)
  from bad [THEN conjunct1] e have 2: "\<exists>m. fst (check_config_paths bare_store ''stimuli/test/''
      ''stimuli/missing/'' ''results/'' ''pics/'' ''randomization_lists/'') = Inl (PyException m)"
    by simp
  with bad [THEN conjunct2, THEN conjunct1]
  have 3: "snd (check_config_paths bare_store ''stimuli/test/''
      ''stimuli/missing/'' ''results/'' ''pics/'' ''randomization_lists/'') = bare_store"
    by (rule mp)
  from 1 2 3 show ?thesis by (intro conjI)
qed

subsection \<open>Components of joined paths\<close>

lemma split_char_nonempty: "split_char c xs \<noteq> []"
  by (induction xs) (auto split: list.splits)

lemma split_char_append_sep:
  "split_char c (a @ c # b) = split_char c a @ split_char c b"
proof (induction a)
  case Nil
  then show ?case by simp
next
  case (Cons x a)
  then show ?case
    using split_char_nonempty [of c a]
    by (cases "split_char c a") auto
qed

lemma split_char_nosep: "c \<notin> set b \<Longrightarrow> split_char c b = [b]"
  by (induction b) auto

lemma split_char_append_nosep:
  "c \<notin> set b \<Longrightarrow>
   split_char c (a @ b) = butlast (split_char c a) @ [last (split_char c a) @ b]"
proof (induction a)
  case Nil
  then show ?case by (simp add: split_char_nosep)
next
  case (Cons x a)
  show ?case
  proof (cases "x = c")
    case True
    with Cons show ?thesis
      using split_char_nonempty [of c a] by simp
  next
    case False
    obtain p ps where s: "split_char c a = p # ps"
      using split_char_nonempty [of c a] by (cases "split_char c a") auto
    with Cons False show ?thesis
      by (cases ps) auto
  qed
qed

lemma names_Nil: "names [] = []"
  by (simp add: names_def)

lemma names_append_sep: "names (a @ CHR ''/'' # b) = names a @ names b"
  by (simp add: names_def split_char_append_sep)

lemma names_endswith_slash:
  assumes "endswith a ''/''"
  shows "names (a @ b) = names a @ names b"
proof -
  from assms obtain a' where a: "a = a' @ ''/''"
    by (auto simp: endswith_def suffix_def)
  have "names (a @ b) = names a' @ names b"
    by (simp add: a names_append_sep)
  moreover have "names a = names a'"
    using names_append_sep [of a' "[]"] by (simp add: a names_Nil)
  ultimately show ?thesis by simp
qed

lemma names_join: "\<not> prefix ''/'' b \<Longrightarrow> names (path_join a b) = names a @ names b"
  by (auto simp: path_join_def names_Nil names_endswith_slash names_append_sep)

lemma components_join:
  assumes "\<not> prefix ''/'' b"
  shows "components (path_join a b) = components a @ names b"
proof (cases "a = []")
  case True
  with assms show ?thesis
    by (simp add: components_def path_join_def names_Nil)
next
  case False
  then have "prefix ''/'' (path_join a b) \<longleftrightarrow> prefix ''/'' a"
    using assms by (cases a) (auto simp: path_join_def)
  with assms show ?thesis
    by (simp add: components_def names_join)
qed

lemma names_append_nosep:
  assumes "CHR ''/'' \<notin> set sfx" and "sfx \<noteq> []"
  shows "names (l @ sfx) \<noteq> []" and "\<not> prefix (names (l @ sfx)) (names l)"
proof -
  let ?S = "split_char CHR ''/'' l"
  let ?F = "filter (\<lambda>c. c \<noteq> []) (butlast ?S)"
  have S: "?S = butlast ?S @ [last ?S]"
    using split_char_nonempty [of "CHR ''/''" l] by simp
  have 1: "names (l @ sfx) = ?F @ [last ?S @ sfx]"
    using assms by (simp add: names_def split_char_append_nosep)
  have "names l = filter (\<lambda>c. c \<noteq> []) (butlast ?S @ [last ?S])"
    using S by (simp add: names_def)
  then have 2: "names l = ?F @ (if last ?S = [] then [] else [last ?S])"
    by simp
  from 1 show "names (l @ sfx) \<noteq> []"
    by simp
  from assms(2) show "\<not> prefix (names (l @ sfx)) (names l)"
    unfolding 1 2 by auto
qed

subsection \<open>Making directories\<close>

lemma components_nonempty: "p \<noteq> [] \<Longrightarrow> components p \<noteq> []"
proof (cases p)
  case Nil
  assume "p \<noteq> []"
  with Nil show ?thesis by simp
next
  case (Cons x xs)
  show ?thesis
  proof (cases "x = CHR ''/''")
    case True
    with Cons show ?thesis by (simp add: components_def)
  next
    case False
    obtain q qs where "split_char CHR ''/'' xs = q # qs"
      using split_char_nonempty [of "CHR ''/''" xs] by (cases "split_char CHR ''/'' xs") auto
    with Cons False show ?thesis
      by (simp add: components_def names_def)
  qed
qed

lemma leading_dirs_prefix: "x \<in> set (leading_dirs c) \<Longrightarrow> prefix x c"
  by (auto simp: leading_dirs_def take_is_prefix)

lemma leading_dirs_self: "c \<noteq> [] \<Longrightarrow> c \<in> set (leading_dirs c)"
proof -
  assume "c \<noteq> []"
  then have "length c \<in> {1..<Suc (length c)}"
    by (cases c) auto
  then have "take (length c) c \<in> set (leading_dirs c)"
    unfolding leading_dirs_def by (auto simp del: take_all_iff take_all)
  then show ?thesis by simp
qed

lemma leading_dirs_snoc: "leading_dirs (c @ [x]) = leading_dirs c @ [c @ [x]]"
proof -
  have "map (\<lambda>k. take k (c @ [x])) [1..<Suc (length c)] = map (\<lambda>k. take k c) [1..<Suc (length c)]"
    by (rule map_cong) auto
  then show ?thesis
    by (simp add: leading_dirs_def)
qed

lemma makedirs_returns:
  assumes "can_makedirs s p"
  shows "makedirs s p = (Inr (), s\<lparr>dirs := dirs s \<union> set (leading_dirs (components p))\<rparr>)"
proof -
  let ?c = "components p"
  from assms have p: "p \<noteq> []" and all: "\<forall>d\<in>set (leading_dirs ?c). csv_files s d = None"
    by (simp_all add: can_makedirs_def list_all_iff)
  from p have "?c \<in> set (leading_dirs ?c)"
    by (intro leading_dirs_self components_nonempty)
  with all have 1: "csv_files s ?c = None"
    by blast
  from all have 2: "\<not> list_ex (\<lambda>d. csv_files s d \<noteq> None) (butlast (leading_dirs ?c))"
    by (auto simp: list_ex_iff dest: in_set_butlastD)
  from p 1 2 show ?thesis
    by (simp add: makedirs_def Let_def)
qed

lemma makedirs_raises:
  assumes "\<not> can_makedirs s p"
  shows "\<exists>e. makedirs s p = (Inl e, s)"
proof (cases "p = []")
  case True
  then show ?thesis by (simp add: makedirs_def)
next
  case False
  let ?c = "components p"
  from False have c: "?c \<noteq> []"
    by (rule components_nonempty)
  from assms False obtain d where d: "d \<in> set (leading_dirs ?c)" "csv_files s d \<noteq> None"
    by (auto simp: can_makedirs_def list_all_iff)
  have l: "leading_dirs ?c = butlast (leading_dirs ?c) @ [?c]"
    using c by (cases ?c) (simp_all add: leading_dirs_def)
  with d(1) have "d \<in> set (butlast (leading_dirs ?c)) \<or> d = ?c"
    by (metis Un_iff empty_iff empty_set set_ConsD set_append)
  with d(2) have "list_ex (\<lambda>d. csv_files s d \<noteq> None) (butlast (leading_dirs ?c)) \<or>
      csv_files s ?c \<noteq> None"
    by (auto simp: list_ex_iff)
  with False show ?thesis
    by (auto simp: makedirs_def Let_def)
qed

lemma can_makedirs_more_dirs: "can_makedirs (s\<lparr>dirs := D\<rparr>) p = can_makedirs s p"
  by (simp add: can_makedirs_def)

lemma files_more_dirs: "files (s\<lparr>dirs := D\<rparr>) = files s"
  by (rule ext) (simp add: files_def)

lemma path_exists_more_dirs:
  "components p \<notin> D \<Longrightarrow> path_exists (s\<lparr>dirs := dirs s \<union> D\<rparr>) p = path_exists s p"
  by (simp add: path_exists_def is_dir_def dir_at_def files_more_dirs)

lemma load_stimuli_more_dirs:
  "components p \<notin> D \<Longrightarrow> load_stimuli (s\<lparr>dirs := dirs s \<union> D\<rparr>) stimuli_path (Some p)
     = load_stimuli s stimuli_path (Some p)"
  by (cases "files s p")
    (auto simp: load_stimuli_def path_exists_more_dirs open_read_def files_more_dirs Let_def
      is_dir_def dir_at_def)

lemma load_stimuli_None_dirs:
  "load_stimuli (s\<lparr>dirs := D\<rparr>) stimuli_path None
     = Inr (filter (\<lambda>file. endswith file ''.wav'') (walk s stimuli_path))"
  by (simp add: load_stimuli_def)

subsection \<open>The practice phase\<close>

lemma progress_path_not_created:
  "components (progress_path pinfo ''practice'')
     \<notin> set (leading_dirs (components (path_join ''results'' (labeler pinfo))))"
proof -
  let ?l = "labeler pinfo"
  let ?sfx = "''_practice_progress.csv''"
  have sfx: "CHR ''/'' \<notin> set ?sfx" "?sfx \<noteq> []"
    by simp_all
  have pp: "progress_path pinfo ''practice'' = path_join (path_join ''results'' ?l) (?l @ ?sfx)"
    by (simp add: progress_path_def)
  have "\<not> prefix (components (progress_path pinfo ''practice''))
      (components (path_join ''results'' ?l))"
  proof (cases "prefix ''/'' ?l")
    case True
    then have a: "prefix ''/'' (?l @ ?sfx)"
      by (cases ?l) auto
    from True have "path_join ''results'' ?l = ?l"
      by (simp add: path_join_def)
    moreover from a have "progress_path pinfo ''practice'' = ?l @ ?sfx"
      by (simp add: pp path_join_def)
    ultimately show ?thesis
      using True a names_append_nosep(2) [OF sfx, of ?l]
      by (simp add: components_def)
  next
    case False
    then have "\<not> prefix ''/'' (?l @ ?sfx)"
      by (cases ?l) auto
    then have "components (progress_path pinfo ''practice'')
        = components (path_join ''results'' ?l) @ names (?l @ ?sfx)"
      by (simp add: pp components_join)
    with names_append_nosep(1) [OF sfx, of ?l] show ?thesis
      by auto
  qed
  then show ?thesis
    by (auto dest: leading_dirs_prefix)
qed

lemma progress_path_nonempty: "progress_path pinfo phase \<noteq> []"
  by (auto simp: progress_path_def path_join_def)

lemma practice_makedirs_ok:
  assumes "can_makedirs s (path_join ''results'' (labeler pinfo))"
  shows "load_and_randomize rnd s stimuli_path pinfo ''practice''
    = (bind (load_stimuli s stimuli_path (Some (progress_path pinfo ''practice'')))
         (\<lambda>practice_stimuli. Inr (practice_stimuli, progress_path pinfo ''practice'')),
       s\<lparr>dirs := dirs s
            \<union> set (leading_dirs (components (path_join ''results'' (labeler pinfo))))\<rparr>)"
  using assms
  by (simp add: load_and_randomize_def makedirs_returns Let_def load_stimuli_more_dirs
      progress_path_not_created)

lemma practice_makedirs_fail:
  assumes "\<not> can_makedirs s (path_join ''results'' (labeler pinfo))"
  shows "\<exists>e. load_and_randomize rnd s stimuli_path pinfo phase = (Inl e, s)"
  using makedirs_raises [OF assms] by (auto simp: load_and_randomize_def Let_def)

lemma practice_independent:
  "load_and_randomize rnd s stimuli_path pinfo ''practice''
     = load_and_randomize rnd' s stimuli_path pinfo ''practice''"
  by (simp add: load_and_randomize_def Let_def split: prod.splits sum.splits)

text \<open>
  C6. In the practice phase the result of \<^verbatim>\<open>load_and_randomize\<close> does not depend on
  the random source and no file is written: the randomizer is not run. Where the results
  directory of the participant can be made (no component of its path is a regular
  file) and the participant's identifier has no component \<^verbatim>\<open>.\<close> or \<^verbatim>\<open>..\<close>, the
  call returns the enumerated \<^verbatim>\<open>.wav\<close> names in enumeration order, all of them when
  there is no practice progress log, and without the names the log lists when there is
  one. Where the directory cannot be made, \<^verbatim>\<open>os.makedirs\<close> raises and nothing has
  changed.
\<close>

theorem practice_not_randomized:
  "load_and_randomize rnd s stimuli_path pinfo ''practice''
     = load_and_randomize rnd' s stimuli_path pinfo ''practice'' \<and>
   files (snd (load_and_randomize rnd s stimuli_path pinfo ''practice'')) = files s \<and>
   (no_dot_components (labeler pinfo) \<and>
    can_makedirs s (path_join ''results'' (labeler pinfo)) \<and>
    \<not> path_exists s (progress_path pinfo ''practice'') \<longrightarrow>
      fst (load_and_randomize rnd s stimuli_path pinfo ''practice'')
        = Inr (filter (\<lambda>file. endswith file ''.wav'') (walk s stimuli_path),
               progress_path pinfo ''practice'')) \<and>
   (no_dot_components (labeler pinfo) \<and>
    can_makedirs s (path_join ''results'' (labeler pinfo)) \<and>
    files s (progress_path pinfo ''practice'') = Some rows \<and> [] \<notin> set rows \<longrightarrow>
      fst (load_and_randomize rnd s stimuli_path pinfo ''practice'')
        = Inr (filter (\<lambda>stimulus. stimulus \<notin> set (map hd rows))
                 (filter (\<lambda>file. endswith file ''.wav'') (walk s stimuli_path)),
               progress_path pinfo ''practice'')) \<and>
   (\<not> can_makedirs s (path_join ''results'' (labeler pinfo)) \<longrightarrow>
      (\<exists>e. load_and_randomize rnd s stimuli_path pinfo ''practice'' = (Inl e, s)))"
proof (intro conjI impI)
  show "load_and_randomize rnd s stimuli_path pinfo ''practice''
     = load_and_randomize rnd' s stimuli_path pinfo ''practice''"
    by (rule practice_independent)
  show "files (snd (load_and_randomize rnd s stimuli_path pinfo ''practice'')) = files s"
  proof (cases "can_makedirs s (path_join ''results'' (labeler pinfo))")
    case True
    then show ?thesis by (simp add: practice_makedirs_ok files_more_dirs)
  next
    case False
    from practice_makedirs_fail [OF False, of rnd stimuli_path "''practice''"]
    show ?thesis by auto
  qed
next
  assume a: "no_dot_components (labeler pinfo) \<and>
    can_makedirs s (path_join ''results'' (labeler pinfo)) \<and>
    \<not> path_exists s (progress_path pinfo ''practice'')"
  then have "load_stimuli s stimuli_path (Some (progress_path pinfo ''practice''))
      = Inr (filter (\<lambda>file. endswith file ''.wav'') (walk s stimuli_path))"
    by (simp add: load_stimuli_no_file)
  with a show "fst (load_and_randomize rnd s stimuli_path pinfo ''practice'')
        = Inr (filter (\<lambda>file. endswith file ''.wav'') (walk s stimuli_path),
               progress_path pinfo ''practice'')"
    by (simp add: practice_makedirs_ok bind_def)
next
  assume a: "no_dot_components (labeler pinfo) \<and>
    can_makedirs s (path_join ''results'' (labeler pinfo)) \<and>
    files s (progress_path pinfo ''practice'') = Some rows \<and> [] \<notin> set rows"
  then have "load_stimuli s stimuli_path (Some (progress_path pinfo ''practice''))
      = Inr (filter (\<lambda>stimulus. stimulus \<notin> set (map hd rows))
                 (filter (\<lambda>file. endswith file ''.wav'') (walk s stimuli_path)))"
    by (simp add: load_stimuli_with_file progress_path_nonempty)
  with a show "fst (load_and_randomize rnd s stimuli_path pinfo ''practice'')
        = Inr (filter (\<lambda>stimulus. stimulus \<notin> set (map hd rows))
                 (filter (\<lambda>file. endswith file ''.wav'') (walk s stimuli_path)),
               progress_path pinfo ''practice'')"
    by (simp add: practice_makedirs_ok bind_def)
next
  assume "\<not> can_makedirs s (path_join ''results'' (labeler pinfo))"
  then show "\<exists>e. load_and_randomize rnd s stimuli_path pinfo ''practice'' = (Inl e, s)"
    by (rule practice_makedirs_fail)
qed


lemma example_practice_wavs:
  "filter (\<lambda>file. endswith file ''.wav'') (walk example_store ''stimuli/practice/'')
      = [''prac_a.wav'', ''prac_b.wav'', ''prac_c.wav'']"
  by (simp add: store_simps)

lemma example_paths:
  "path_join ''results'' ''p01'' = ''results/p01''"
  "path_join ''results'' ''p02'' = ''results/p02''"
  "path_join ''randomization_lists'' ''p01'' = ''randomization_lists/p01''"
  "randomized_path \<lparr>labeler = ''p01''\<rparr> ''test''
     = ''randomization_lists/p01/test_randomized_stimuli.csv''"
  "progress_path \<lparr>labeler = ''p01''\<rparr> ''test'' = ''results/p01/p01_test_progress.csv''"
  "progress_path \<lparr>labeler = ''p01''\<rparr> ''practice'' = ''results/p01/p01_practice_progress.csv''"
  "progress_path \<lparr>labeler = ''p02''\<rparr> ''practice'' = ''results/p02/p02_practice_progress.csv''"
  by (simp_all add: randomized_path_def progress_path_def path_join_def endswith_def
      suffix_to_prefix)

lemma example_components:
  "components ''results/p01'' = [''results'', ''p01'']"
  "components ''results/p02'' = [''results'', ''p02'']"
  "components ''randomization_lists/p01'' = [''randomization_lists'', ''p01'']"
  "components ''randomization_lists/p01/test_randomized_stimuli.csv''
     = [''randomization_lists'', ''p01'', ''test_randomized_stimuli.csv'']"
  by (simp_all add: components_def names_def)

lemma example_leading_dirs:
  "set (leading_dirs [''results'', ''p01'']) = {[''results''], [''results'', ''p01'']}"
  "set (leading_dirs [''results'', ''p02'']) = {[''results''], [''results'', ''p02'']}"
  "set (leading_dirs [''randomization_lists'', ''p01''])
     = {[''randomization_lists''], [''randomization_lists'', ''p01'']}"
  by code_simp+

lemma example_no_dots:
  "no_dot_components (labeler \<lparr>labeler = ''p01''\<rparr>)"
  "no_dot_components (labeler \<lparr>labeler = ''p02''\<rparr>)"
  by (simp_all add: no_dot_components_def names_def)

lemma example_can_makedirs:
  "can_makedirs example_store ''results/p01''"
  "can_makedirs example_store ''results/p02''"
  "can_makedirs example_store ''randomization_lists/p01''"
  "\<not> can_makedirs blocked_store ''results/p01''"
  by (simp_all add: can_makedirs_def example_components leading_dirs_def
      example_store_def bare_store_def blocked_store_def upt_rec)

text \<open>
  In the example store participant \<^verbatim>\<open>p02\<close> has no practice log and gets the three
  names; \<^verbatim>\<open>p01\<close> has one that lists the second name and gets the other two, in order.
  In the blocked store the call raises.
\<close>

theorem practice_not_randomized_witness:
  "load_and_randomize (\<lambda>i. 0) example_store ''stimuli/practice/'' \<lparr>labeler = ''p01''\<rparr> ''practice''
     = load_and_randomize (\<lambda>i. i) example_store ''stimuli/practice/'' \<lparr>labeler = ''p01''\<rparr>
         ''practice'' \<and>
   files (snd (load_and_randomize (\<lambda>i. 0) example_store ''stimuli/practice/''
                 \<lparr>labeler = ''p01''\<rparr> ''practice'')) = files example_store \<and>
   fst (load_and_randomize (\<lambda>i. 0) example_store ''stimuli/practice/'' \<lparr>labeler = ''p02''\<rparr>
          ''practice'')
     = Inr ([''prac_a.wav'', ''prac_b.wav'', ''prac_c.wav''],
            ''results/p02/p02_practice_progress.csv'') \<and>
   fst (load_and_randomize (\<lambda>i. 0) example_store ''stimuli/practice/'' \<lparr>labeler = ''p01''\<rparr>
          ''practice'')
     = Inr ([''prac_a.wav'', ''prac_c.wav''], ''results/p01/p01_practice_progress.csv'') \<and>
   (\<exists>e. load_and_randomize (\<lambda>i. 0) blocked_store ''stimuli/practice/'' \<lparr>labeler = ''p01''\<rparr>
          ''practice'' = (Inl e, blocked_store))"
proof -
  note t1 = practice_not_randomized [of "\<lambda>i. 0" example_store "''stimuli/practice/''"
      "\<lparr>labeler = ''p01''\<rparr>" "\<lambda>i. i" "[[''prac_b.wav'']]"]
  note t2 = practice_not_randomized [of "\<lambda>i. 0" example_store "''stimuli/practice/''"
      "\<lparr>labeler = ''p02''\<rparr>" "\<lambda>i. i" "[]"]
  note t3 = practice_not_randomized [of "\<lambda>i. 0" blocked_store "''stimuli/practice/''"
      "\<lparr>labeler = ''p01''\<rparr>" "\<lambda>i. i" "[]"]
  have f1: "files example_store ''results/p01/p01_practice_progress.csv''
      = Some [[''prac_b.wav'']]" "[] \<notin> set [[''prac_b.wav'']]"
    and f2: "\<not> path_exists example_store ''results/p02/p02_practice_progress.csv''"
    by (simp_all add: store_simps)
  have a: "load_and_randomize (\<lambda>i. 0) example_store ''stimuli/practice/''
        \<lparr>labeler = ''p01''\<rparr> ''practice''
      = load_and_randomize (\<lambda>i. i) example_store ''stimuli/practice/'' \<lparr>labeler = ''p01''\<rparr>
          ''practice''"
    and b: "files (snd (load_and_randomize (\<lambda>i. 0) example_store ''stimuli/practice/''
                 \<lparr>labeler = ''p01''\<rparr> ''practice'')) = files example_store"
    by (rule t1 [THEN conjunct1], rule t1 [THEN conjunct2, THEN conjunct1])
  from t2 [THEN conjunct2, THEN conjunct2, THEN conjunct1] example_no_dots(2)
    example_can_makedirs f2
  have c: "fst (load_and_randomize (\<lambda>i. 0) example_store ''stimuli/practice/''
        \<lparr>labeler = ''p02''\<rparr> ''practice'')
      = Inr ([''prac_a.wav'', ''prac_b.wav'', ''prac_c.wav''],
            ''results/p02/p02_practice_progress.csv'')"
    by (simp add: example_paths example_practice_wavs)
  from t1 [THEN conjunct2, THEN conjunct2, THEN conjunct2, THEN conjunct1] example_no_dots(1)
    example_can_makedirs f1
  have d: "fst (load_and_randomize (\<lambda>i. 0) example_store ''stimuli/practice/''
        \<lparr>labeler = ''p01''\<rparr> ''practice'')
      = Inr ([''prac_a.wav'', ''prac_c.wav''], ''results/p01/p01_practice_progress.csv'')"
    by (simp add: example_paths example_practice_wavs)
  from t3 [THEN conjunct2, THEN conjunct2, THEN conjunct2, THEN conjunct2] example_can_makedirs
  have e: "\<exists>e. load_and_randomize (\<lambda>i. 0) blocked_store ''stimuli/practice/''
      \<lparr>labeler = ''p01''\<rparr> ''practice'' = (Inl e, blocked_store)"
    by (simp add: example_paths)
  from a b c d e show ?thesis by (intro conjI)
qed

subsection \<open>The test phase, first load\<close>

lemma extract_filename: "extract_filename_info f = Inr r \<Longrightarrow> filename r = f"
  by (auto simp: extract_filename_info_def bind_def Let_def split: sum.splits if_splits)

lemma map_raise_extract_filenames:
  "map_raise extract_filename_info fs = Inr stimulus_data \<Longrightarrow> map filename stimulus_data = fs"
proof (induction fs arbitrary: stimulus_data)
  case Nil
  then show ?case by simp
next
  case (Cons f fs)
  from Cons.prems obtain r rs where r: "extract_filename_info f = Inr r"
      and rs: "map_raise extract_filename_info fs = Inr rs" and d: "stimulus_data = r # rs"
    by (auto simp: bind_def split: sum.splits)
  from r have "filename r = f"
    by (rule extract_filename)
  moreover from rs have "map filename rs = fs"
    by (rule Cons.IH)
  ultimately show ?case using d by simp
qed

lemma randomized_path_test:
  "randomized_path pinfo ''test''
     = path_join (path_join ''randomization_lists'' (labeler pinfo)) ''test_randomized_stimuli.csv''"
  by (simp add: randomized_path_def)

lemma randomization_directory_nonempty: "path_join ''randomization_lists'' l \<noteq> []"
  by (auto simp: path_join_def)

lemma results_directory_nonempty: "path_join ''results'' l \<noteq> []"
  by (auto simp: path_join_def)

lemma randomized_path_components:
  "components (randomized_path pinfo ''test'')
     = components (path_join ''randomization_lists'' (labeler pinfo))
         @ [''test_randomized_stimuli.csv'']"
proof -
  have "names ''test_randomized_stimuli.csv'' = [''test_randomized_stimuli.csv'']"
    by (simp add: names_def)
  then show ?thesis
    by (simp add: randomized_path_test components_join)
qed

lemma randomized_path_is_file_name:
  "randomized_path pinfo ''test'' \<noteq> []" "\<not> endswith (randomized_path pinfo ''test'') ''/''"
  by (auto simp: randomized_path_test path_join_def endswith_def suffix_to_prefix)

lemma randomized_path_not_created:
  "components (randomized_path pinfo ''test'')
     \<notin> set (leading_dirs (components (path_join ''randomization_lists'' (labeler pinfo))))"
  "components (randomized_path pinfo ''test'')
     \<notin> set (leading_dirs (components (path_join ''results'' (labeler pinfo))))"
proof -
  let ?l = "labeler pinfo"
  let ?r = "components (path_join ''randomization_lists'' ?l)"
  have np: "\<not> prefix (?r @ [''test_randomized_stimuli.csv'']) ?r"
    by auto
  then show "components (randomized_path pinfo ''test'') \<notin> set (leading_dirs ?r)"
    by (auto simp: randomized_path_components dest: leading_dirs_prefix)
  have "\<not> prefix (?r @ [''test_randomized_stimuli.csv''])
      (components (path_join ''results'' ?l))"
  proof (cases "prefix ''/'' ?l")
    case True
    then have "path_join ''results'' ?l = path_join ''randomization_lists'' ?l"
      by (simp add: path_join_def)
    with np show ?thesis by simp
  next
    case False
    have "components ''results'' = [''results'']"
        "components ''randomization_lists'' = [''randomization_lists'']"
      by (simp_all add: components_def names_def)
    with False show ?thesis
      by (simp add: components_join)
  qed
  then show "components (randomized_path pinfo ''test'')
      \<notin> set (leading_dirs (components (path_join ''results'' ?l)))"
    by (auto simp: randomized_path_components dest: leading_dirs_prefix)
qed

lemma randomized_path_parent:
  "butlast (components (randomized_path pinfo ''test''))
     = components (path_join ''randomization_lists'' (labeler pinfo))"
  "components (randomized_path pinfo ''test'') \<noteq> []"
  "components (randomized_path pinfo ''test'') \<noteq> [''/'']"
  using components_nonempty [OF randomization_directory_nonempty, of "labeler pinfo"]
  by (simp_all add: randomized_path_components)

lemma test_first_load:
  assumes pd: "can_makedirs s (path_join ''results'' (labeler pinfo))"
    and rd: "can_makedirs s (path_join ''randomization_lists'' (labeler pinfo))"
    and ne: "\<not> path_exists s (randomized_path pinfo ''test'')"
    and ex: "map_raise extract_filename_info
           (filter (\<lambda>file. endswith file ''.wav'') (walk s stimuli_path)) = Inr stimulus_data"
  shows "load_and_randomize rnd s stimuli_path pinfo ''test''
    = (Inr (map filename (constraint_randomization rnd stimulus_data), progress_path pinfo ''test''),
       s\<lparr>dirs := dirs s
            \<union> set (leading_dirs (components (path_join ''results'' (labeler pinfo))))
            \<union> set (leading_dirs (components (path_join ''randomization_lists'' (labeler pinfo)))),
         csv_files := (csv_files s)(components (randomized_path pinfo ''test'')
                     \<mapsto> map (\<lambda>stimulus. [stimulus])
                           (map filename (constraint_randomization rnd stimulus_data)))\<rparr>)"
proof -
  let ?pd = "path_join ''results'' (labeler pinfo)"
  let ?rd = "path_join ''randomization_lists'' (labeler pinfo)"
  let ?rp = "randomized_path pinfo ''test''"
  let ?s1 = "s\<lparr>dirs := dirs s \<union> set (leading_dirs (components ?pd))\<rparr>"
  let ?s2 = "s\<lparr>dirs := dirs s \<union> set (leading_dirs (components ?pd))
      \<union> set (leading_dirs (components ?rd))\<rparr>"
  note nc = randomized_path_not_created [of pinfo]
  note par = randomized_path_parent [of pinfo]
  note fn = randomized_path_is_file_name [of pinfo]
  have m1: "makedirs s ?pd = (Inr (), ?s1)"
    using pd by (rule makedirs_returns)
  from rd have "can_makedirs ?s1 ?rd"
    by (simp add: can_makedirs_more_dirs)
  then have m2: "makedirs ?s1 ?rd = (Inr (), ?s2)"
    by (simp add: makedirs_returns)
  from ne fn have nd: "components ?rp \<notin> dirs s" and nf: "csv_files s (components ?rp) = None"
    by (auto simp: path_exists_def is_dir_def dir_at_def files_def)
  from nd nf nc par fn have e2: "\<not> path_exists ?s2 ?rp" and i2: "\<not> is_dir ?s2 ?rp"
    by (auto simp: path_exists_def is_dir_def dir_at_def files_def)
  have "components ?rd \<in> set (leading_dirs (components ?rd))"
    by (intro leading_dirs_self components_nonempty randomization_directory_nonempty)
  moreover from this rd have "csv_files s (components ?rd) = None"
    by (auto simp: can_makedirs_def list_all_iff)
  moreover from rd
  have "\<not> list_ex (\<lambda>d. csv_files s d \<noteq> None) (butlast (leading_dirs (components ?rp)))"
    by (simp add: randomized_path_components leading_dirs_snoc can_makedirs_def
        list_all_iff list_ex_iff)
  ultimately have w: "open_write ?s2 ?rp rows
      = (Inr (), ?s2\<lparr>csv_files := (csv_files s)(components ?rp \<mapsto> rows)\<rparr>)" for rows
    using i2 fn par by (simp add: open_write_def Let_def dir_at_def)
  from m1 m2 e2 ex w show ?thesis
    by (simp add: load_and_randomize_def Let_def load_stimuli_None_dirs randomize_stimuli_def
        bind_def)
qed

lemma test_makedirs_fail:
  assumes "\<not> can_makedirs s (path_join ''results'' (labeler pinfo)) \<or>
    \<not> can_makedirs s (path_join ''randomization_lists'' (labeler pinfo))"
  shows "\<exists>e. fst (load_and_randomize rnd s stimuli_path pinfo ''test'') = Inl e"
proof (cases "can_makedirs s (path_join ''results'' (labeler pinfo))")
  case False
  from practice_makedirs_fail [OF False, of rnd stimuli_path "''test''"] show ?thesis
    by auto
next
  case True
  let ?s1 = "s\<lparr>dirs := dirs s
      \<union> set (leading_dirs (components (path_join ''results'' (labeler pinfo))))\<rparr>"
  from True assms have "\<not> can_makedirs ?s1 (path_join ''randomization_lists'' (labeler pinfo))"
    by (simp add: can_makedirs_more_dirs)
  then obtain e where
    "makedirs ?s1 (path_join ''randomization_lists'' (labeler pinfo)) = (Inl e, ?s1)"
    using makedirs_raises by blast
  with True show ?thesis
    by (simp add: load_and_randomize_def Let_def makedirs_returns)
qed

text \<open>
  C7. In the test phase, when nothing exists at the path of the persisted order, the two
  directories of the participant can be made, the participant's identifier has no
  component \<^verbatim>\<open>.\<close> or \<^verbatim>\<open>..\<close> and every \<^verbatim>\<open>.wav\<close> name parses,
  \<^verbatim>\<open>load_and_randomize\<close> runs the randomizer over the records of all enumerated
  \<^verbatim>\<open>.wav\<close> names, writes the resulting order to that path, one name a row, and returns
  it. The order is a permutation of the full enumeration: the progress log is not read.
  When one of the two directories cannot be made, the call raises.
\<close>

theorem test_first_load_randomizes_full_set:
  "(no_dot_components (labeler pinfo) \<and>
    can_makedirs s (path_join ''results'' (labeler pinfo)) \<and>
    can_makedirs s (path_join ''randomization_lists'' (labeler pinfo)) \<and>
    \<not> path_exists s (randomized_path pinfo ''test'') \<and>
    map_raise extract_filename_info
      (filter (\<lambda>file. endswith file ''.wav'') (walk s stimuli_path)) = Inr stimulus_data \<longrightarrow>
    load_and_randomize rnd s stimuli_path pinfo ''test''
      = (Inr (map filename (constraint_randomization rnd stimulus_data),
              progress_path pinfo ''test''),
         s\<lparr>dirs := dirs s
              \<union> set (leading_dirs (components (path_join ''results'' (labeler pinfo))))
              \<union> set (leading_dirs
                      (components (path_join ''randomization_lists'' (labeler pinfo)))),
           csv_files := (csv_files s)(components (randomized_path pinfo ''test'')
                       \<mapsto> map (\<lambda>stimulus. [stimulus])
                             (map filename (constraint_randomization rnd stimulus_data)))\<rparr>) \<and>
    files (snd (load_and_randomize rnd s stimuli_path pinfo ''test''))
        (randomized_path pinfo ''test'')
      = Some (map (\<lambda>stimulus. [stimulus])
                (map filename (constraint_randomization rnd stimulus_data))) \<and>
    mset (map filename (constraint_randomization rnd stimulus_data))
      = mset (filter (\<lambda>file. endswith file ''.wav'') (walk s stimuli_path))) \<and>
   (\<not> can_makedirs s (path_join ''results'' (labeler pinfo)) \<or>
    \<not> can_makedirs s (path_join ''randomization_lists'' (labeler pinfo)) \<longrightarrow>
      (\<exists>e. fst (load_and_randomize rnd s stimuli_path pinfo ''test'') = Inl e))"
proof (intro impI conjI)
  assume a: "no_dot_components (labeler pinfo) \<and>
    can_makedirs s (path_join ''results'' (labeler pinfo)) \<and>
    can_makedirs s (path_join ''randomization_lists'' (labeler pinfo)) \<and>
    \<not> path_exists s (randomized_path pinfo ''test'') \<and>
    map_raise extract_filename_info
      (filter (\<lambda>file. endswith file ''.wav'') (walk s stimuli_path)) = Inr stimulus_data"
  then show r: "load_and_randomize rnd s stimuli_path pinfo ''test''
      = (Inr (map filename (constraint_randomization rnd stimulus_data),
              progress_path pinfo ''test''),
         s\<lparr>dirs := dirs s
              \<union> set (leading_dirs (components (path_join ''results'' (labeler pinfo))))
              \<union> set (leading_dirs
                      (components (path_join ''randomization_lists'' (labeler pinfo)))),
           csv_files := (csv_files s)(components (randomized_path pinfo ''test'')
                       \<mapsto> map (\<lambda>stimulus. [stimulus])
                             (map filename (constraint_randomization rnd stimulus_data)))\<rparr>)"
    by (intro test_first_load) simp_all
  show "files (snd (load_and_randomize rnd s stimuli_path pinfo ''test''))
        (randomized_path pinfo ''test'')
      = Some (map (\<lambda>stimulus. [stimulus])
                (map filename (constraint_randomization rnd stimulus_data)))"
    using randomized_path_is_file_name [of pinfo] by (simp add: r files_def)
  have "mset (map filename (constraint_randomization rnd stimulus_data))
      = mset (map filename stimulus_data)"
    by (simp add: mset_constraint_randomization)
  moreover from a have "map filename stimulus_data
      = filter (\<lambda>file. endswith file ''.wav'') (walk s stimuli_path)"
    by (intro map_raise_extract_filenames) simp
  ultimately show "mset (map filename (constraint_randomization rnd stimulus_data))
     = mset (filter (\<lambda>file. endswith file ''.wav'') (walk s stimuli_path))"
    by simp
next
  assume "\<not> can_makedirs s (path_join ''results'' (labeler pinfo)) \<or>
    \<not> can_makedirs s (path_join ''randomization_lists'' (labeler pinfo))"
  then show "\<exists>e. fst (load_and_randomize rnd s stimuli_path pinfo ''test'') = Inl e"
    by (rule test_makedirs_fail)
qed

lemma example_test_wavs:
  "filter (\<lambda>file. endswith file ''.wav'') (walk example_store ''stimuli/test/'')
     = [''expA_spk1_o1_o2_o3_o4_3_wordA_cond1.wav'', ''expA_spk2_o1_o2_o3_o5_4_wordB_cond2.wav'']"
  by (simp add: store_simps)

lemma example_test_records:
  "map_raise extract_filename_info
      [''expA_spk1_o1_o2_o3_o4_3_wordA_cond1.wav'', ''expA_spk2_o1_o2_o3_o5_4_wordB_cond2.wav'']
     = Inr example_records"
  by (simp add: example_records_def extract_filename_info_def bind_def index_def index_last_def)

lemma example_test_order:
  "map filename (constraint_randomization (\<lambda>i. 0) example_records)
     = [''expA_spk2_o1_o2_o3_o5_4_wordB_cond2.wav'', ''expA_spk1_o1_o2_o3_o4_3_wordA_cond1.wav'']"
  by code_simp

lemma example_no_persisted_order:
  "\<not> path_exists example_store ''randomization_lists/p01/test_randomized_stimuli.csv''"
  by (simp add: store_simps)

lemma example_preconditions:
  "can_makedirs example_store (path_join ''results'' (labeler \<lparr>labeler = ''p01''\<rparr>))"
  "can_makedirs example_store (path_join ''randomization_lists'' (labeler \<lparr>labeler = ''p01''\<rparr>))"
  "\<not> path_exists example_store (randomized_path \<lparr>labeler = ''p01''\<rparr> ''test'')"
  "map_raise extract_filename_info
     (filter (\<lambda>file. endswith file ''.wav'') (walk example_store ''stimuli/test/''))
     = Inr example_records"
  by (simp_all only: example_paths example_can_makedirs example_no_persisted_order
      example_test_wavs example_test_records participant_info.simps simp_thms)

text \<open>
  In the example store participant \<^verbatim>\<open>p01\<close> has a test progress log that lists the
  first stimulus; the first load returns and persists both stimuli all the same. In the
  blocked store the call raises.
\<close>

theorem test_first_load_randomizes_full_set_witness:
  "load_and_randomize (\<lambda>i. 0) example_store ''stimuli/test/'' \<lparr>labeler = ''p01''\<rparr> ''test''
     = (Inr ([''expA_spk2_o1_o2_o3_o5_4_wordB_cond2.wav'',
              ''expA_spk1_o1_o2_o3_o4_3_wordA_cond1.wav''],
             ''results/p01/p01_test_progress.csv''),
        example_store
          \<lparr>dirs := dirs example_store \<union> {[''results''], [''results'', ''p01'']}
                   \<union> {[''randomization_lists''], [''randomization_lists'', ''p01'']},
           csv_files := (csv_files example_store)
             ([''randomization_lists'', ''p01'', ''test_randomized_stimuli.csv'']
                \<mapsto> [[''expA_spk2_o1_o2_o3_o5_4_wordB_cond2.wav''],
                     [''expA_spk1_o1_o2_o3_o4_3_wordA_cond1.wav'']])\<rparr>) \<and>
   (\<exists>e. fst (load_and_randomize (\<lambda>i. 0) blocked_store ''stimuli/test/'' \<lparr>labeler = ''p01''\<rparr>
               ''test'') = Inl e)"
proof -
  note t = test_first_load_randomizes_full_set [of "\<lparr>labeler = ''p01''\<rparr>" example_store
      "''stimuli/test/''" example_records "\<lambda>i. 0"]
  note b = test_first_load_randomizes_full_set [of "\<lparr>labeler = ''p01''\<rparr>" blocked_store
      "''stimuli/test/''" example_records "\<lambda>i. 0"]
  from t [THEN conjunct1] example_no_dots(1) example_preconditions
  have 1: "load_and_randomize (\<lambda>i. 0) example_store ''stimuli/test/'' \<lparr>labeler = ''p01''\<rparr> ''test''
     = (Inr ([''expA_spk2_o1_o2_o3_o5_4_wordB_cond2.wav'',
              ''expA_spk1_o1_o2_o3_o4_3_wordA_cond1.wav''],
             ''results/p01/p01_test_progress.csv''),
        example_store
          \<lparr>dirs := dirs example_store \<union> {[''results''], [''results'', ''p01'']}
                   \<union> {[''randomization_lists''], [''randomization_lists'', ''p01'']},
           csv_files := (csv_files example_store)
             ([''randomization_lists'', ''p01'', ''test_randomized_stimuli.csv'']
                \<mapsto> [[''expA_spk2_o1_o2_o3_o5_4_wordB_cond2.wav''],
                     [''expA_spk1_o1_o2_o3_o4_3_wordA_cond1.wav'']])\<rparr>)"
    by (simp only: example_paths example_components example_test_order example_leading_dirs
        list.map simp_thms participant_info.simps)
  from b [THEN conjunct2] example_can_makedirs(4)
  have 2: "\<exists>e. fst (load_and_randomize (\<lambda>i. 0) blocked_store ''stimuli/test/''
      \<lparr>labeler = ''p01''\<rparr> ''test'') = Inl e"
    by (simp add: example_paths)
  from 1 2 show ?thesis by (rule conjI)
qed

subsection \<open>The test phase, resumed\<close>

text \<open>
  When the persisted order exists, the loader reads it back after skipping one row as a
  header. The writer wrote no header.
\<close>

lemma test_reload:
  assumes pd: "can_makedirs s (path_join ''results'' (labeler pinfo))"
    and rd: "can_makedirs s (path_join ''randomization_lists'' (labeler pinfo))"
    and f: "files s (randomized_path pinfo ''test'') = Some rows"
    and r: "[] \<notin> set (tl rows)"
  shows "load_and_randomize rnd s stimuli_path pinfo ''test''
    = (Inr (map hd (tl rows), progress_path pinfo ''test''),
       s\<lparr>dirs := dirs s
            \<union> set (leading_dirs (components (path_join ''results'' (labeler pinfo))))
            \<union> set (leading_dirs (components (path_join ''randomization_lists'' (labeler pinfo))))\<rparr>)"
proof -
  let ?pd = "path_join ''results'' (labeler pinfo)"
  let ?rd = "path_join ''randomization_lists'' (labeler pinfo)"
  let ?s1 = "s\<lparr>dirs := dirs s \<union> set (leading_dirs (components ?pd))\<rparr>"
  let ?s2 = "s\<lparr>dirs := dirs s \<union> set (leading_dirs (components ?pd))
      \<union> set (leading_dirs (components ?rd))\<rparr>"
  have m1: "makedirs s ?pd = (Inr (), ?s1)"
    using pd by (rule makedirs_returns)
  from rd have "can_makedirs ?s1 ?rd"
    by (simp add: can_makedirs_more_dirs)
  then have m2: "makedirs ?s1 ?rd = (Inr (), ?s2)"
    by (simp add: makedirs_returns)
  from f have f2: "files ?s2 (randomized_path pinfo ''test'') = Some rows"
    by (simp add: files_more_dirs)
  then have "path_exists ?s2 (randomized_path pinfo ''test'')"
      and "open_read ?s2 (randomized_path pinfo ''test'') = Inr rows"
    by (simp_all add: path_exists_def open_read_def)
  with m1 m2 r show ?thesis
    by (simp add: load_and_randomize_def Let_def bind_def map_raise_index_0)
qed

lemma test_resume_returns_tail:
  assumes pd: "can_makedirs s (path_join ''results'' (labeler pinfo))"
    and rd: "can_makedirs s (path_join ''randomization_lists'' (labeler pinfo))"
    and ne: "\<not> path_exists s (randomized_path pinfo ''test'')"
    and ex: "map_raise extract_filename_info
           (filter (\<lambda>file. endswith file ''.wav'') (walk s stimuli_path)) = Inr stimulus_data"
  shows "fst (load_and_randomize rnd'
                (snd (load_and_randomize rnd s stimuli_path pinfo ''test''))
                stimuli_path pinfo ''test'')
    = Inr (tl (map filename (constraint_randomization rnd stimulus_data)),
           progress_path pinfo ''test'')"
proof -
  let ?order = "map filename (constraint_randomization rnd stimulus_data)"
  let ?s' = "snd (load_and_randomize rnd s stimuli_path pinfo ''test'')"
  let ?rows = "map (\<lambda>stimulus. [stimulus]) ?order"
  let ?rp = "randomized_path pinfo ''test''"
  note nc = randomized_path_not_created [of pinfo]
  have c: "csv_files ?s' = (csv_files s)(components ?rp \<mapsto> ?rows)"
    by (simp add: test_first_load [OF pd rd ne ex])
  from pd nc(2) have 1: "can_makedirs ?s' (path_join ''results'' (labeler pinfo))"
    by (auto simp: can_makedirs_def list_all_iff c)
  from rd nc(1) have 2: "can_makedirs ?s' (path_join ''randomization_lists'' (labeler pinfo))"
    by (auto simp: can_makedirs_def list_all_iff c)
  have 3: "files ?s' ?rp = Some ?rows"
    using randomized_path_is_file_name [of pinfo] by (simp add: files_def c)
  have 4: "[] \<notin> set (tl ?rows)"
    by (auto simp: map_tl [symmetric])
  have "map hd (tl ?rows) = tl ?order"
    by (simp add: map_tl [symmetric] comp_def)
  with test_reload [OF 1 2 3 4, of rnd' stimuli_path] show ?thesis
    by simp
qed


text \<open>
  C1 fails on the code. In the example store the first test load of participant
  \<^verbatim>\<open>p01\<close> computes, persists and returns two identifiers; the second load, on the file
  system the first one left, returns only the second of them: the row of the first
  identifier is skipped as a header.
\<close>

theorem resume_drops_first_stimulus:
  "fst (load_and_randomize (\<lambda>i. 0) example_store ''stimuli/test/'' \<lparr>labeler = ''p01''\<rparr> ''test'')
     = Inr ([''expA_spk2_o1_o2_o3_o5_4_wordB_cond2.wav'',
             ''expA_spk1_o1_o2_o3_o4_3_wordA_cond1.wav''],
            ''results/p01/p01_test_progress.csv'') \<and>
   fst (load_and_randomize (\<lambda>i. 0)
          (snd (load_and_randomize (\<lambda>i. 0) example_store ''stimuli/test/''
                  \<lparr>labeler = ''p01''\<rparr> ''test''))
          ''stimuli/test/'' \<lparr>labeler = ''p01''\<rparr> ''test'')
     = Inr ([''expA_spk1_o1_o2_o3_o4_3_wordA_cond1.wav''],
            ''results/p01/p01_test_progress.csv'')"
proof -
  note pre = example_preconditions
  from test_first_load [OF pre, of "\<lambda>i. 0"]
  have 1: "fst (load_and_randomize (\<lambda>i. 0) example_store ''stimuli/test/''
        \<lparr>labeler = ''p01''\<rparr> ''test'')
     = Inr ([''expA_spk2_o1_o2_o3_o5_4_wordB_cond2.wav'',
             ''expA_spk1_o1_o2_o3_o4_3_wordA_cond1.wav''],
            ''results/p01/p01_test_progress.csv'')"
    by (simp only: example_paths example_test_order fst_conv)
  from test_resume_returns_tail [OF pre, of "\<lambda>i. 0" "\<lambda>i. 0"]
  have 2: "fst (load_and_randomize (\<lambda>i. 0)
          (snd (load_and_randomize (\<lambda>i. 0) example_store ''stimuli/test/''
                  \<lparr>labeler = ''p01''\<rparr> ''test''))
          ''stimuli/test/'' \<lparr>labeler = ''p01''\<rparr> ''test'')
     = Inr ([''expA_spk1_o1_o2_o3_o4_3_wordA_cond1.wav''],
            ''results/p01/p01_test_progress.csv'')"
    by (simp only: example_paths example_test_order list.sel)
  from 1 2 show ?thesis by (rule conjI)
qed


end
